theory Spec2Isabelle
  imports Main "HOL-Library.Word" "HOL-Library.AList"
begin

section \<open>The byte source\<close>

text \<open>
  The archive is an \<^verbatim>\<open>ArrayBuffer\<close> read through a \<^verbatim>\<open>DataView\<close>: a fixed
  sequence of bytes. Offsets are JavaScript numbers and may be negative (the locator
  computes \<^verbatim>\<open>byteLength - 22\<close>), so they are integers; every decoded field is an
  unsigned integer, so it is a natural number. A getter of the \<^verbatim>\<open>DataView\<close>
  throws a \<^verbatim>\<open>RangeError\<close> when the offset is negative or the read would pass the
  end of the view.
\<close>

type_synonym byte = "8 word"

datatype error = RangeError | TypeError | Error string

definition getUint8 :: "byte list \<Rightarrow> int \<Rightarrow> error + nat" where
  "getUint8 buf off =
     (if 0 \<le> off \<and> off + 1 \<le> int (length buf) then Inr (unat (buf ! nat off))
      else Inl RangeError)"

definition getUint16 :: "byte list \<Rightarrow> int \<Rightarrow> error + nat" where
  "getUint16 buf off =
     (if 0 \<le> off \<and> off + 2 \<le> int (length buf)
      then Inr (unat (buf ! nat off) + 256 * unat (buf ! (nat off + 1)))
      else Inl RangeError)"

definition getUint32 :: "byte list \<Rightarrow> int \<Rightarrow> error + nat" where
  "getUint32 buf off =
     (if 0 \<le> off \<and> off + 4 \<le> int (length buf)
      then Inr (unat (buf ! nat off) + 256 * unat (buf ! (nat off + 1))
                + 65536 * unat (buf ! (nat off + 2)) + 16777216 * unat (buf ! (nat off + 3)))
      else Inl RangeError)"

fun le_value :: "byte list \<Rightarrow> nat" where
  "le_value [] = 0"
| "le_value (b # bs) = unat b + 256 * le_value bs"

definition getBigUint64 :: "byte list \<Rightarrow> int \<Rightarrow> error + nat" where
  "getBigUint64 buf off =
     (if 0 \<le> off \<and> off + 8 \<le> int (length buf)
      then Inr (le_value (take 8 (drop (nat off) buf)))
      else Inl RangeError)"

text \<open>
  \<^verbatim>\<open>ArrayBuffer.prototype.slice(begin, end)\<close>: a negative bound counts from the end,
  both bounds are clamped to the buffer, and an empty range gives an empty buffer. It
  never throws.
\<close>

definition clampIndex :: "int \<Rightarrow> int \<Rightarrow> nat" where
  "clampIndex len i = nat (if i < 0 then max (len + i) 0 else min i len)"

definition bufferSlice :: "byte list \<Rightarrow> int \<Rightarrow> int \<Rightarrow> byte list" where
  "bufferSlice buf start stop =
     (let first = clampIndex (int (length buf)) start;
          final = clampIndex (int (length buf)) stop
      in take (final - first) (drop first buf))"

section \<open>The record decoder\<close>

text \<open>
  \<^verbatim>\<open>readStruct(fields, offset)\<close> walks a list of field descriptions. A field whose
  \<^verbatim>\<open>length\<close> is a number is a little-endian unsigned integer of 1, 2, 4 or 8 bytes
  (any other width throws \<^verbatim>\<open>Error("Unsupported length")\<close>); a field whose
  \<^verbatim>\<open>length\<close> is a string is a text of as many bytes as the field of that name,
  decoded earlier, says, one character per byte. The result is the object of decoded
  properties and the number of bytes consumed (kept under \<^verbatim>\<open>totalLengthSymbol\<close>).

  The four schemas below only ever name a numeric field that was decoded before. For a
  name that is missing or holds a text JavaScript would go on with \<^verbatim>\<open>NaN\<close>; the
  model does not follow that and stops with \<open>Error ''length field''\<close>.
\<close>

datatype flen = Bytes nat | LengthOf string

type_synonym field = "string \<times> flen"

datatype val = Number nat | Text string

text \<open>
  The properties of a JavaScript object, in insertion order: assigning to a property
  that exists replaces its value in place, assigning to a new one appends it.
\<close>

type_synonym props = "(string \<times> val) list"

definition getProp :: "props \<Rightarrow> string \<Rightarrow> val option" where
  "getProp struct name = map_of struct name"

definition setProp :: "props \<Rightarrow> string \<Rightarrow> val \<Rightarrow> props" where
  "setProp struct name v = AList.update name v struct"

fun readChars :: "byte list \<Rightarrow> int \<Rightarrow> nat \<Rightarrow> error + string" where
  "readChars buf pos 0 = Inr []"
| "readChars buf pos (Suc n) =
     (case getUint8 buf pos of
        Inl e \<Rightarrow> Inl e
      | Inr c \<Rightarrow>
          (case readChars buf (pos + 1) n of
             Inl e \<Rightarrow> Inl e
           | Inr cs \<Rightarrow> Inr (char_of c # cs)))"

definition readNumber :: "byte list \<Rightarrow> int \<Rightarrow> nat \<Rightarrow> error + nat" where
  "readNumber buf pos n =
     (let bitLength = n * 8 in
      if bitLength = 8 then getUint8 buf pos
      else if bitLength = 16 then getUint16 buf pos
      else if bitLength = 32 then getUint32 buf pos
      else if bitLength = 64 then getBigUint64 buf pos
      else Inl (Error ''Unsupported length''))"

fun readFields :: "byte list \<Rightarrow> int \<Rightarrow> field list \<Rightarrow> props \<Rightarrow> nat \<Rightarrow> error + (props \<times> nat)" where
  "readFields buf offset [] struct totalLength = Inr (struct, totalLength)"
| "readFields buf offset ((name, Bytes n) # fields) struct totalLength =
     (case readNumber buf (offset + int totalLength) n of
        Inl e \<Rightarrow> Inl e
      | Inr v \<Rightarrow> readFields buf offset fields (setProp struct name (Number v)) (totalLength + n))"
| "readFields buf offset ((name, LengthOf ref) # fields) struct totalLength =
     (case getProp struct ref of
        Some (Number len) \<Rightarrow>
          (case readChars buf (offset + int totalLength) len of
             Inl e \<Rightarrow> Inl e
           | Inr str \<Rightarrow> readFields buf offset fields (setProp struct name (Text str)) (totalLength + len))
      | _ \<Rightarrow> Inl (Error ''length field''))"

text \<open>
  A decoded object: its string-keyed properties and the value kept under
  \<^verbatim>\<open>totalLengthSymbol\<close>. The kind kept under \<^verbatim>\<open>structTypeSymbol\<close> is the type
  of the object in the model (see \<open>entry\<close> below).
\<close>

record obj =
  props :: props
  totalLength :: nat

definition readStruct :: "byte list \<Rightarrow> field list \<Rightarrow> int \<Rightarrow> error + obj" where
  "readStruct buf schema offset =
     (case readFields buf offset schema [] 0 of
        Inl e \<Rightarrow> Inl e
      | Inr (struct, consumed) \<Rightarrow> Inr \<lparr>props = struct, totalLength = consumed\<rparr>)"

text \<open>
  Property access. Reading a numeric property that is absent gives \<^verbatim>\<open>undefined\<close>
  in JavaScript; the only place where the source relies on that is
  \<^verbatim>\<open>entry.compressedSize || centralDirectory.compressedSize\<close>, where
  \<^verbatim>\<open>undefined\<close> and 0 behave alike, so an absent number reads as 0.
\<close>

definition numOf :: "val option \<Rightarrow> nat" where
  "numOf v = (case v of Some (Number n) \<Rightarrow> n | _ \<Rightarrow> 0)"

definition textOf :: "val option \<Rightarrow> string" where
  "textOf v = (case v of Some (Text t) \<Rightarrow> t | _ \<Rightarrow> [])"

abbreviation generalPurpose :: "'a obj_scheme \<Rightarrow> nat" where
  "generalPurpose e \<equiv> numOf (getProp (props e) ''generalPurpose'')"

abbreviation compressionMethod :: "'a obj_scheme \<Rightarrow> nat" where
  "compressionMethod e \<equiv> numOf (getProp (props e) ''compressionMethod'')"

abbreviation crc :: "'a obj_scheme \<Rightarrow> nat" where
  "crc e \<equiv> numOf (getProp (props e) ''crc'')"

abbreviation compressedSize :: "'a obj_scheme \<Rightarrow> nat" where
  "compressedSize e \<equiv> numOf (getProp (props e) ''compressedSize'')"

abbreviation uncompressedSize :: "'a obj_scheme \<Rightarrow> nat" where
  "uncompressedSize e \<equiv> numOf (getProp (props e) ''uncompressedSize'')"

abbreviation fileName :: "'a obj_scheme \<Rightarrow> string" where
  "fileName e \<equiv> textOf (getProp (props e) ''fileName'')"

abbreviation offset_of :: "'a obj_scheme \<Rightarrow> nat" where
  "offset_of e \<equiv> numOf (getProp (props e) ''offset'')"

abbreviation centralDirectoryOffset :: "'a obj_scheme \<Rightarrow> nat" where
  "centralDirectoryOffset e \<equiv> numOf (getProp (props e) ''centralDirectoryOffset'')"

section \<open>The four schemas\<close>

definition localFileFields :: "field list" where
  "localFileFields =
     [(''signature'', Bytes 4), (''version'', Bytes 2), (''generalPurpose'', Bytes 2),
      (''compressionMethod'', Bytes 2), (''lastModifiedTime'', Bytes 2),
      (''lastModifiedDate'', Bytes 2), (''crc'', Bytes 4), (''compressedSize'', Bytes 4),
      (''uncompressedSize'', Bytes 4), (''fileNameLength'', Bytes 2),
      (''extraLength'', Bytes 2), (''fileName'', LengthOf ''fileNameLength''),
      (''extra'', LengthOf ''extraLength'')]"

definition centralDirectoryFields :: "field list" where
  "centralDirectoryFields =
     [(''signature'', Bytes 4), (''versionCreated'', Bytes 2), (''versionNeeded'', Bytes 2),
      (''generalPurpose'', Bytes 2), (''compressionMethod'', Bytes 2),
      (''lastModifiedTime'', Bytes 2), (''lastModifiedDate'', Bytes 2), (''crc'', Bytes 4),
      (''compressedSize'', Bytes 4), (''uncompressedSize'', Bytes 4),
      (''fileNameLength'', Bytes 2), (''extraLength'', Bytes 2),
      (''fileCommentLength'', Bytes 2), (''diskNumber'', Bytes 2),
      (''internalAttributes'', Bytes 2), (''externalAttributes'', Bytes 4),
      (''offset'', Bytes 4), (''fileName'', LengthOf ''fileNameLength''),
      (''extra'', LengthOf ''extraLength''), (''comments'', LengthOf ''fileCommentLength'')]"

definition dataDescriptorFields :: "field list" where
  "dataDescriptorFields =
     [(''signature'', Bytes 4), (''crc'', Bytes 4), (''compressedSize'', Bytes 4),
      (''uncompressedSize'', Bytes 4)]"

definition endCentralDirectoryFields :: "field list" where
  "endCentralDirectoryFields =
     [(''signature'', Bytes 4), (''numberOfDisks'', Bytes 2),
      (''centralDirectoryStartDisk'', Bytes 2),
      (''numberCentralDirectoryRecordsOnThisDisk'', Bytes 2),
      (''numberCentralDirectoryRecords'', Bytes 2), (''centralDirectorySize'', Bytes 4),
      (''centralDirectoryOffset'', Bytes 4), (''commentLength'', Bytes 2),
      (''comment'', LengthOf ''commentLength'')]"

text \<open>
  A local file entry is the decoded object with three more properties:
  \<^verbatim>\<open>needsDataDescriptor\<close> (set when bit 3 of the general purpose flags is set,
  otherwise absent, which reads as false), \<^verbatim>\<open>startsAt\<close> (where the data begins) and
  \<^verbatim>\<open>enrichedByDataDescriptor\<close> (set later by the scan, absent until then). The bound
  \<^verbatim>\<open>extract\<close> method is the function \<open>extract_entry\<close> below applied to the entry.
\<close>

record LocalFile = obj +
  needsDataDescriptor :: bool
  startsAt :: int
  enrichedByDataDescriptor :: bool

unbundle bit_operations_syntax

definition readLocalFile :: "byte list \<Rightarrow> int \<Rightarrow> error + LocalFile" where
  "readLocalFile buf offset =
     (case readStruct buf localFileFields offset of
        Inl e \<Rightarrow> Inl e
      | Inr entry \<Rightarrow>
          Inr \<lparr>props = props entry, totalLength = totalLength entry,
               needsDataDescriptor = (generalPurpose entry AND 8 \<noteq> 0),
               startsAt = offset + int (totalLength entry),
               enrichedByDataDescriptor = False\<rparr>)"

definition readCentralDirectory :: "byte list \<Rightarrow> int \<Rightarrow> error + obj" where
  "readCentralDirectory buf offset = readStruct buf centralDirectoryFields offset"

definition readDataDescriptor :: "byte list \<Rightarrow> int \<Rightarrow> error + obj" where
  "readDataDescriptor buf offset = readStruct buf dataDescriptorFields offset"

definition readEndCentralDirectory :: "byte list \<Rightarrow> int \<Rightarrow> error + obj" where
  "readEndCentralDirectory buf offset = readStruct buf endCentralDirectoryFields offset"

section \<open>The archive reader\<close>

text \<open>
  The fields of the \<^verbatim>\<open>ZipReader\<close> object. \<^verbatim>\<open>backwardIndex\<close> does not exist
  until \<^verbatim>\<open>read\<close> assigns it. An entry handed to \<^verbatim>\<open>extract\<close> or returned by
  \<^verbatim>\<open>entryByFileName\<close> is a local file entry or a central directory entry; the
  constructor stands for the value under \<^verbatim>\<open>structTypeSymbol\<close>.
\<close>

record ZipReader =
  index :: int
  localFiles :: "LocalFile list"
  centralDirectories :: "obj list"
  endOfCentralDirectory :: "obj option"
  dataView :: "byte list"
  backwardIndex :: "int option"

datatype entry = LocalFileEntry LocalFile | CentralDirectoryEntry obj

definition newZipReader :: "byte list \<Rightarrow> ZipReader" where
  "newZipReader arrayBuffer =
     \<lparr>index = 0, localFiles = [], centralDirectories = [], endOfCentralDirectory = None,
      dataView = arrayBuffer, backwardIndex = None\<rparr>"

definition byteLength :: "ZipReader \<Rightarrow> int" where
  "byteLength s = int (length (dataView s))"

fun entryProps :: "entry \<Rightarrow> props" where
  "entryProps (LocalFileEntry e) = props e"
| "entryProps (CentralDirectoryEntry c) = props c"

definition entryByFileName :: "ZipReader \<Rightarrow> string \<Rightarrow> bool \<Rightarrow> entry option" where
  "entryByFileName s name useCentralDirectory =
     (if useCentralDirectory
      then map_option CentralDirectoryEntry (find (\<lambda>c. fileName c = name) (centralDirectories s))
      else map_option LocalFileEntry (find (\<lambda>e. fileName e = name) (localFiles s)))"

subsection \<open>The sequential scan\<close>

text \<open>
  The \<^verbatim>\<open>while\<close> loop of \<^verbatim>\<open>read\<close>. The cursor is a JavaScript number; the
  additions are exact as long as it stays below \<open>2 ^ 53\<close>, which is far above twice
  the length of any buffer plus the largest record, so the model adds integers. An
  exception leaves the loop with the object as it was when it was thrown, so the error
  carries the state. The data
  descriptor branch assigns to the properties of the last local file entry; on an empty
  list that entry is \<^verbatim>\<open>undefined\<close> and the assignment throws a \<^verbatim>\<open>TypeError\<close>,
  as does reading \<^verbatim>\<open>compressedSize\<close> of a central directory entry that
  \<^verbatim>\<open>entryByFileName\<close> did not find.
\<close>

type_synonym 'a outcome = "(error \<times> ZipReader) + 'a"

definition patchTarget :: "LocalFile \<Rightarrow> obj \<Rightarrow> LocalFile" where
  "patchTarget target entry =
     target\<lparr>props :=
               setProp (setProp (setProp (props target) ''crc'' (Number (crc entry)))
                          ''compressedSize'' (Number (compressedSize entry)))
                 ''uncompressedSize'' (Number (uncompressedSize entry)),
            enrichedByDataDescriptor := True\<rparr>"

text \<open>
  Every record has a fixed part, so a decoded record consumes at least the bytes of its
  numeric fields. The loops below advance by that much, which is why they end.
\<close>

fun fixedLength :: "field list \<Rightarrow> nat" where
  "fixedLength [] = 0"
| "fixedLength ((name, Bytes n) # rest) = n + fixedLength rest"
| "fixedLength ((name, LengthOf ref) # rest) = fixedLength rest"

lemma readFields_consumes:
  "readFields buf offset schema struct t = Inr (struct', t') \<Longrightarrow> t + fixedLength schema \<le> t'"
proof (induction buf offset schema struct t rule: readFields.induct)
  case (1 buf offset struct totalLength)
  then show ?case by simp
next
  case (2 buf offset name n rest struct totalLength)
  then show ?case by (fastforce split: sum.splits)
next
  case (3 buf offset name ref rest struct totalLength)
  then show ?case by (fastforce split: sum.splits option.splits val.splits)
qed

lemma readStruct_consumes:
  "readStruct buf schema offset = Inr e \<Longrightarrow> fixedLength schema \<le> totalLength e"
  using readFields_consumes [of buf offset schema "[]" 0]
  by (auto simp: readStruct_def split: sum.splits)

lemma readLocalFile_consumes:
  "readLocalFile buf offset = Inr e \<Longrightarrow> 30 \<le> totalLength e"
  using readStruct_consumes [of buf localFileFields offset]
  by (auto simp: readLocalFile_def localFileFields_def split: sum.splits)

lemma readLocalFile_startsAt:
  "readLocalFile buf offset = Inr e \<Longrightarrow> startsAt e = offset + int (totalLength e)"
  by (auto simp: readLocalFile_def split: sum.splits)

lemma readCentralDirectory_consumes:
  "readCentralDirectory buf offset = Inr c \<Longrightarrow> 46 \<le> totalLength c"
  using readStruct_consumes [of buf centralDirectoryFields offset]
  by (auto simp: readCentralDirectory_def centralDirectoryFields_def)

lemma readDataDescriptor_consumes:
  "readDataDescriptor buf offset = Inr d \<Longrightarrow> 16 \<le> totalLength d"
  using readStruct_consumes [of buf dataDescriptorFields offset]
  by (auto simp: readDataDescriptor_def dataDescriptorFields_def)

lemma readEndCentralDirectory_consumes:
  "readEndCentralDirectory buf offset = Inr r \<Longrightarrow> 22 \<le> totalLength r"
  using readStruct_consumes [of buf endCentralDirectoryFields offset]
  by (auto simp: readEndCentralDirectory_def endCentralDirectoryFields_def)

lemma getUint32_offset: "getUint32 buf off = Inr v \<Longrightarrow> 0 \<le> off \<and> off + 4 \<le> int (length buf)"
  by (auto simp: getUint32_def split: if_splits)

function scan :: "bool \<Rightarrow> ZipReader \<Rightarrow> ZipReader outcome" where
  "scan useCentralDirectory s =
     (if index s + 4 < byteLength s then
        (case getUint32 (dataView s) (index s) of
           Inl e \<Rightarrow> Inl (e, s)
         | Inr signature \<Rightarrow>
             if signature = 0x04034b50 then
               (case readLocalFile (dataView s) (index s) of
                  Inl e \<Rightarrow> Inl (e, s)
                | Inr entry \<Rightarrow>
                    let s1 = s\<lparr>localFiles := localFiles s @ [entry],
                               index := index s + (startsAt entry + int (compressedSize entry))\<rparr>
                    in if needsDataDescriptor entry then
                         if useCentralDirectory then
                           (case entryByFileName s1 (fileName entry) True of
                              None \<Rightarrow> Inl (TypeError, s1)
                            | Some c \<Rightarrow>
                                scan useCentralDirectory
                                  (s1\<lparr>index := index s1
                                         + int (numOf (getProp (entryProps c) ''compressedSize''))\<rparr>))
                         else Inr s1
                       else scan useCentralDirectory s1)
             else if signature = 0x08074b50 then
               (case readDataDescriptor (dataView s) (index s) of
                  Inl e \<Rightarrow> Inl (e, s)
                | Inr entry \<Rightarrow>
                    if localFiles s = [] then Inl (TypeError, s)
                    else scan useCentralDirectory
                           (s\<lparr>localFiles :=
                                 butlast (localFiles s) @ [patchTarget (last (localFiles s)) entry],
                               index := index s + int (totalLength entry)\<rparr>))
             else if useCentralDirectory then Inr s
             else if signature = 0x02014b50 then
               (case readCentralDirectory (dataView s) (index s) of
                  Inl e \<Rightarrow> Inl (e, s)
                | Inr entry \<Rightarrow>
                    scan useCentralDirectory
                      (s\<lparr>centralDirectories := centralDirectories s @ [entry],
                          index := index s + int (totalLength entry)\<rparr>))
             else if signature = 0x06054b50 then
               (case readEndCentralDirectory (dataView s) (index s) of
                  Inl e \<Rightarrow> Inl (e, s)
                | Inr r \<Rightarrow>
                    Inr (s\<lparr>endOfCentralDirectory := Some r,
                            index := index s + int (totalLength r)\<rparr>))
             else Inr s)
      else Inr s)"
  by pat_completeness auto
termination
proof (relation "measure (\<lambda>(u, s). nat (byteLength s - index s))")
  show "wf (measure (\<lambda>(u, s). nat (byteLength s - index s)))" by simp
next
  fix useCentralDirectory :: bool and s signature entry s1 c
  assume "index s + 4 < byteLength s"
    and "getUint32 (dataView s) (index s) = Inr signature"
    and "readLocalFile (dataView s) (index s) = Inr entry"
    and "s1 = s\<lparr>localFiles := localFiles s @ [entry],
                   index := index s + (startsAt entry + int (compressedSize entry))\<rparr>"
  then show "((useCentralDirectory,
               s1\<lparr>index := index s1 + int (numOf (getProp (entryProps c) ''compressedSize''))\<rparr>),
              useCentralDirectory, s)
             \<in> measure (\<lambda>(u, s). nat (byteLength s - index s))"
    using getUint32_offset [of "dataView s" "index s" signature]
      readLocalFile_consumes [of "dataView s" "index s" entry]
      readLocalFile_startsAt [of "dataView s" "index s" entry]
    by (simp add: byteLength_def)
next
  fix useCentralDirectory :: bool and s signature entry s1
  assume "index s + 4 < byteLength s"
    and "getUint32 (dataView s) (index s) = Inr signature"
    and "readLocalFile (dataView s) (index s) = Inr entry"
    and "s1 = s\<lparr>localFiles := localFiles s @ [entry],
                   index := index s + (startsAt entry + int (compressedSize entry))\<rparr>"
  then show "((useCentralDirectory, s1), useCentralDirectory, s)
             \<in> measure (\<lambda>(u, s). nat (byteLength s - index s))"
    using getUint32_offset [of "dataView s" "index s" signature]
      readLocalFile_consumes [of "dataView s" "index s" entry]
      readLocalFile_startsAt [of "dataView s" "index s" entry]
    by (simp add: byteLength_def)
next
  fix useCentralDirectory :: bool and s signature entry
  assume "index s + 4 < byteLength s"
    and "readDataDescriptor (dataView s) (index s) = Inr entry"
  then show "((useCentralDirectory,
               s\<lparr>localFiles := butlast (localFiles s) @ [patchTarget (last (localFiles s)) entry],
                  index := index s + int (totalLength entry)\<rparr>),
              useCentralDirectory, s)
             \<in> measure (\<lambda>(u, s). nat (byteLength s - index s))"
    using readDataDescriptor_consumes [of "dataView s" "index s" entry]
    by (simp add: byteLength_def)
next
  fix useCentralDirectory :: bool and s signature entry
  assume "index s + 4 < byteLength s"
    and "readCentralDirectory (dataView s) (index s) = Inr entry"
  then show "((useCentralDirectory,
               s\<lparr>centralDirectories := centralDirectories s @ [entry],
                  index := index s + int (totalLength entry)\<rparr>),
              useCentralDirectory, s)
             \<in> measure (\<lambda>(u, s). nat (byteLength s - index s))"
    using readCentralDirectory_consumes [of "dataView s" "index s" entry]
    by (simp add: byteLength_def)
qed

subsection \<open>The end of central directory locator\<close>

text \<open>
  The inner loop of \<^verbatim>\<open>heuristicsCentralDirectorySearch\<close>: central directory
  entries are decoded from \<^verbatim>\<open>readOffset\<close> on and appended while the read
  position is below the candidate offset.
\<close>

function readCentralDirectories :: "int \<Rightarrow> ZipReader \<Rightarrow> int \<Rightarrow> ZipReader outcome" where
  "readCentralDirectories offset s readOffset =
     (if readOffset < offset then
        (case readCentralDirectory (dataView s) readOffset of
           Inl e \<Rightarrow> Inl (e, s)
         | Inr centralDirectory \<Rightarrow>
             readCentralDirectories offset
               (s\<lparr>centralDirectories := centralDirectories s @ [centralDirectory]\<rparr>)
               (readOffset + int (totalLength centralDirectory)))
      else Inr s)"
  by pat_completeness auto
termination
proof (relation "measure (\<lambda>(offset, s, readOffset). nat (offset - readOffset))")
  show "wf (measure (\<lambda>(offset, s, readOffset). nat (offset - readOffset)))" by simp
next
  fix offset :: int and s :: ZipReader and readOffset centralDirectory
  assume "readOffset < offset"
    and "readCentralDirectory (dataView s) readOffset = Inr centralDirectory"
  then show "((offset, s\<lparr>centralDirectories := centralDirectories s @ [centralDirectory]\<rparr>,
               readOffset + int (totalLength centralDirectory)),
              offset, s, readOffset)
             \<in> measure (\<lambda>(offset, s, readOffset). nat (offset - readOffset))"
    using readCentralDirectory_consumes [of "dataView s" readOffset centralDirectory]
    by simp
qed

definition heuristicsCentralDirectorySearch :: "ZipReader \<Rightarrow> int \<Rightarrow> (bool \<times> ZipReader) outcome" where
  "heuristicsCentralDirectorySearch s offset =
     (case getUint32 (dataView s) offset of
        Inl e \<Rightarrow> Inl (e, s)
      | Inr signature \<Rightarrow>
          if signature = 0x06054b50 then
            (case readEndCentralDirectory (dataView s) offset of
               Inl e \<Rightarrow> Inl (e, s)
             | Inr r \<Rightarrow>
                 if int (totalLength r) = byteLength s - offset then
                   (case getUint32 (dataView s) (int (centralDirectoryOffset r)) of
                      Inl e \<Rightarrow> Inl (e, s)
                    | Inr signature2 \<Rightarrow>
                        if signature2 = 0x02014b50 then
                          (case readCentralDirectories offset
                                  (s\<lparr>endOfCentralDirectory := Some r\<rparr>)
                                  (int (centralDirectoryOffset r)) of
                             Inl x \<Rightarrow> Inl x
                           | Inr s' \<Rightarrow> Inr (True, s'))
                        else Inr (False, s))
                 else Inr (False, s))
          else Inr (False, s))"

text \<open>
  The hot spots: \<^verbatim>\<open>byteLength - 22\<close>, and \<^verbatim>\<open>byteLength - 64 * 1024 - 22\<close> when
  that is positive. The \<^verbatim>\<open>for\<close> loop stops at the first one that validates.
\<close>

definition hotSpots :: "ZipReader \<Rightarrow> int list" where
  "hotSpots s =
     (let jumpPos = byteLength s - 64 * 1024 - 22
      in [byteLength s - 22] @ (if jumpPos > 0 then [jumpPos] else []))"

fun probeHotSpots :: "int list \<Rightarrow> ZipReader \<Rightarrow> ZipReader outcome" where
  "probeHotSpots [] s = Inr s"
| "probeHotSpots (h # hs) s =
     (case heuristicsCentralDirectorySearch s h of
        Inl x \<Rightarrow> Inl x
      | Inr (found, s') \<Rightarrow> if found then Inr s' else probeHotSpots hs s')"

text \<open>
  The brute force loop works on \<^verbatim>\<open>this.backwardIndex\<close>. A comparison with
  \<^verbatim>\<open>undefined\<close> is false, so the loop does nothing while the property is absent.
\<close>

function bruteForce :: "ZipReader \<Rightarrow> ZipReader outcome" where
  "bruteForce s =
     (case backwardIndex s of
        None \<Rightarrow> Inr s
      | Some b \<Rightarrow>
          if endOfCentralDirectory s = None \<and> b > 0 \<and> b > index s then
            (case heuristicsCentralDirectorySearch s b of
               Inl x \<Rightarrow> Inl x
             | Inr (found, s') \<Rightarrow>
                 if found then Inr s' else bruteForce (s'\<lparr>backwardIndex := Some (b - 1)\<rparr>))
          else Inr s)"
  by pat_completeness auto
termination
proof (relation "measure (\<lambda>s. case backwardIndex s of None \<Rightarrow> 0 | Some b \<Rightarrow> nat b)")
  show "wf (measure (\<lambda>s. case backwardIndex s of None \<Rightarrow> 0 | Some b \<Rightarrow> nat b))" by simp
next
  fix s :: ZipReader and b :: int and s' :: ZipReader
  assume "backwardIndex s = Some b"
    and "endOfCentralDirectory s = None \<and> 0 < b \<and> index s < b"
  then show "(s'\<lparr>backwardIndex := Some (b - 1)\<rparr>, s)
             \<in> measure (\<lambda>s. case backwardIndex s of None \<Rightarrow> 0 | Some b \<Rightarrow> nat b)"
    by simp
qed

subsection \<open>\<^verbatim>\<open>read\<close>\<close>

definition locate :: "ZipReader \<Rightarrow> ZipReader outcome" where
  "locate s =
     (case (if endOfCentralDirectory s = None then probeHotSpots (hotSpots s) s else Inr s) of
        Inl x \<Rightarrow> Inl x
      | Inr s' \<Rightarrow> bruteForce (s'\<lparr>backwardIndex := Some (byteLength s' - 23)\<rparr>))"

definition read :: "bool \<Rightarrow> ZipReader \<Rightarrow> ZipReader outcome" where
  "read useCentralDirectory s0 =
     (let s = (if useCentralDirectory then s0\<lparr>index := 0, localFiles := []\<rparr> else s0)
      in case scan useCentralDirectory s of
           Inl x \<Rightarrow> Inl x
         | Inr s1 \<Rightarrow> if useCentralDirectory then Inr s1 else locate s1)"

subsection \<open>\<^verbatim>\<open>extract\<close>\<close>

text \<open>
  The decompression is the browser's \<^verbatim>\<open>DecompressionStream("deflate-raw")\<close>, a
  parameter here: it turns the compressed bytes into the chunks it produced or fails.
  A \<^verbatim>\<open>Blob\<close> is its parts and its type. \<^verbatim>\<open>extract\<close> only reads the archive
  object, so it takes the state and returns none.
\<close>

datatype blob = Blob "byte list list" string

fun blobBytes :: "blob \<Rightarrow> byte list" where
  "blobBytes (Blob parts type) = concat parts"

definition extract_entry ::
  "(byte list \<Rightarrow> error + byte list list) \<Rightarrow> ZipReader \<Rightarrow> entry \<Rightarrow> string \<Rightarrow> error + blob" where
  "extract_entry inflate s entry type =
     (case (case entry of
              CentralDirectoryEntry c \<Rightarrow> readLocalFile (dataView s) (int (offset_of c))
            | LocalFileEntry e \<Rightarrow> Inr e) of
        Inl e \<Rightarrow> Inl e
      | Inr e \<Rightarrow>
          let buffer = bufferSlice (dataView s) (startsAt e)
                         (startsAt e
                          + int (if compressedSize e \<noteq> 0 then compressedSize e
                                 else numOf (getProp (entryProps entry) ''compressedSize'')))
          in if compressionMethod e = 0x00 then Inr (Blob [buffer] [])
             else if compressionMethod e = 0x08 then
               (case inflate buffer of
                  Inl err \<Rightarrow> Inl err
                | Inr data \<Rightarrow> Inr (Blob data type))
             else Inl (Error ''Unsupported compression method''))"

definition extractByFileName ::
  "(byte list \<Rightarrow> error + byte list list) \<Rightarrow> ZipReader \<Rightarrow> string \<Rightarrow> bool \<Rightarrow> error + blob option" where
  "extractByFileName inflate s name useCentralDirectory =
     (case entryByFileName s name useCentralDirectory of
        None \<Rightarrow> Inr None
      | Some entry \<Rightarrow> map_sum id Some (extract_entry inflate s entry []))"

definition entries :: "ZipReader \<Rightarrow> LocalFile list" where
  "entries s = localFiles s"

text \<open>
  The loops are unfolded by hand where a proof needs a step, and by name where a
  concrete archive is evaluated.
\<close>

declare scan.simps [simp del]
declare readCentralDirectories.simps [simp del]
declare bruteForce.simps [simp del]

lemmas decoder_defs =
  readLocalFile_def readCentralDirectory_def readDataDescriptor_def
  readEndCentralDirectory_def readStruct_def readNumber_def getUint8_def getUint16_def
  getUint32_def localFileFields_def centralDirectoryFields_def dataDescriptorFields_def
  endCentralDirectoryFields_def getProp_def setProp_def numOf_def textOf_def

lemmas reader_defs =
  read_def locate_def hotSpots_def byteLength_def newZipReader_def
  heuristicsCentralDirectorySearch_def entryByFileName_def patchTarget_def Let_def
  scan.simps readCentralDirectories.simps bruteForce.simps

section \<open>Decoding in range\<close>

lemma readDataDescriptor_in_range:
  assumes "0 \<le> off" and "off + 16 \<le> int (length buf)"
  shows "\<exists>d. readDataDescriptor buf off = Inr d \<and> totalLength d = 16"
  using assms
  by (simp add: readDataDescriptor_def readStruct_def dataDescriptorFields_def readNumber_def
      getUint32_def)

text \<open>For evaluating a text field of a concrete length.\<close>

lemma readChars_unfold:
  "readChars buf pos n =
     (if n = 0 then Inr []
      else case getUint8 buf pos of
             Inl e \<Rightarrow> Inl e
           | Inr c \<Rightarrow>
               (case readChars buf (pos + 1) (n - 1) of
                  Inl e \<Rightarrow> Inl e
                | Inr cs \<Rightarrow> Inr (char_of c # cs)))"
  by (cases n) (simp_all split: sum.splits)

section \<open>The cursor after a local file header\<close>

text \<open>
  What one iteration of the scan does at a local file header whose bit 3 is clear:
  \<^verbatim>\<open>this.index += entry.startsAt + entry.compressedSize\<close> adds the absolute position
  \<^verbatim>\<open>startsAt\<close> to the cursor, so the new cursor is twice the old one plus the header
  length plus the compressed size.
\<close>

lemma scan_local_file_step:
  assumes "index s + 4 < byteLength s"
    and "getUint32 (dataView s) (index s) = Inr 0x04034b50"
    and "readLocalFile (dataView s) (index s) = Inr entry"
    and "\<not> needsDataDescriptor entry"
  shows "scan u s =
           scan u (s\<lparr>localFiles := localFiles s @ [entry],
                      index := 2 * index s + int (totalLength entry) + int (compressedSize entry)\<rparr>)"
  using assms readLocalFile_startsAt [of "dataView s" "index s" entry]
  by (subst scan.simps) (simp add: Let_def add.assoc)

text \<open>
  Three local file headers of 30 bytes each (no name, no extra field, no data, sizes
  declared as 0, bit 3 clear), followed by five bytes of padding.
\<close>

definition three_headers :: "byte list" where
  "three_headers =
     [0x50, 0x4b, 0x03, 0x04, 20, 0, 0, 0, 0, 0, 0, 0, 0, 0, 0, 0, 0, 0, 0, 0, 0, 0, 0, 0,
      0, 0, 0, 0, 0, 0]
     @ [0x50, 0x4b, 0x03, 0x04, 20, 0, 0, 0, 0, 0, 0, 0, 0, 0, 0, 0, 0, 0, 0, 0, 0, 0, 0, 0,
        0, 0, 0, 0, 0, 0]
     @ [0x50, 0x4b, 0x03, 0x04, 20, 0, 0, 0, 0, 0, 0, 0, 0, 0, 0, 0, 0, 0, 0, 0, 0, 0, 0, 0,
        0, 0, 0, 0, 0, 0]
     @ [0, 0, 0, 0, 0]"

text \<open>
  C1. The claim: at every cursor position where the signature is \<open>0x04034b50\<close> the scan
  appends the decoded header and moves the cursor to old cursor + header length +
  compressed size. On \<open>three_headers\<close> the first header moves the cursor from 0 to 30,
  as claimed, but the second one, at cursor 30, moves it to 30 + (30 + 30) + 0 = 90
  instead of 60: the third header, at 60, is never decoded, and the scan ends at the
  padding with two entries.
\<close>

theorem second_header_overshoots:
  "map_sum fst (\<lambda>s. (index s, map startsAt (localFiles s), map totalLength (localFiles s),
                       map compressedSize (localFiles s)))
     (scan False (newZipReader three_headers))
   = Inr (90, [30, 60], [30, 30], [0, 0])"
  by (simp add: three_headers_def decoder_defs reader_defs)

section \<open>A data descriptor before any local file header\<close>

text \<open>
  C10. For every buffer of at least 16 bytes that begins with the data descriptor
  signature \<open>0x08074b50\<close>, \<^verbatim>\<open>read()\<close> on a fresh reader decodes the descriptor, finds
  no local file entry to patch, and fails with a \<^verbatim>\<open>TypeError\<close>, the reader being as
  it was constructed. So \<^verbatim>\<open>read\<close> does not return on every byte buffer.
\<close>

theorem read_data_descriptor_first:
  assumes "getUint32 buf 0 = Inr 0x08074b50" and "16 \<le> length buf"
  shows "read False (newZipReader buf) = Inl (TypeError, newZipReader buf)"
proof -
  obtain d where d: "readDataDescriptor buf 0 = Inr d"
    using readDataDescriptor_in_range [of 0 buf] assms(2) by auto
  have "scan False (newZipReader buf) = Inl (TypeError, newZipReader buf)"
    using assms d
    by (subst scan.simps) (simp add: newZipReader_def byteLength_def)
  then show ?thesis by (simp add: read_def)
qed

definition lone_descriptor :: "byte list" where
  "lone_descriptor = [0x50, 0x4b, 0x07, 0x08, 1, 0, 0, 0, 2, 0, 0, 0, 3, 0, 0, 0]"

theorem read_data_descriptor_first_witness:
  "getUint32 lone_descriptor 0 = Inr 0x08074b50 \<and> 16 \<le> length lone_descriptor
   \<and> read False (newZipReader lone_descriptor) = Inl (TypeError, newZipReader lone_descriptor)"
proof -
  have sig: "getUint32 lone_descriptor 0 = Inr 0x08074b50"
    by (simp add: lone_descriptor_def getUint32_def)
  have len: "16 \<le> length lone_descriptor"
    by (simp add: lone_descriptor_def)
  show ?thesis
    using sig len read_data_descriptor_first [OF sig len] by simp
qed

section \<open>Extraction\<close>

text \<open>
  A local file header that declares method 0 and 5 bytes of data, compressed and
  uncompressed, in a buffer that ends after 2 of them.
\<close>

definition truncated_store :: "byte list" where
  "truncated_store =
     [0x50, 0x4b, 0x03, 0x04, 20, 0, 0, 0, 0, 0, 0, 0, 0, 0, 0, 0, 0, 0, 5, 0, 0, 0, 5, 0,
      0, 0, 0, 0, 0, 0]
     @ [0x68, 0x69]"

text \<open>
  C7, as stated, fails: after \<^verbatim>\<open>read()\<close> on \<open>truncated_store\<close> the only entry has
  method 0, \<^verbatim>\<open>compressedSize\<close> 5 and \<^verbatim>\<open>uncompressedSize\<close> 5, and extracting it
  gives 2 bytes, because \<^verbatim>\<open>slice\<close> clamps the range to the buffer.
\<close>

theorem truncated_store_length:
  "map_sum fst
     (\<lambda>s. map (\<lambda>e. (compressionMethod e, compressedSize e, uncompressedSize e,
                       map_sum id (\<lambda>b. length (blobBytes b))
                         (extract_entry (\<lambda>b. Inr [b]) s (LocalFileEntry e) [])))
            (localFiles s))
     (read False (newZipReader truncated_store))
   = Inr [(0, 5, 5, Inr 2)]"
  by (simp add: truncated_store_def decoder_defs reader_defs extract_entry_def
      bufferSlice_def clampIndex_def)

text \<open>
  C7, amended. Let \<open>e\<close> be the local file entry that \<^verbatim>\<open>extract\<close> works on (the
  entry itself, or the header decoded at the offset of a central directory entry), with
  method 0, and let \<open>n\<close> be its \<^verbatim>\<open>compressedSize\<close>, or when that is 0 the
  \<^verbatim>\<open>compressedSize\<close> of the entry that was passed. Then the result is one part, the
  slice of the buffer from \<^verbatim>\<open>startsAt\<close> to \<^verbatim>\<open>startsAt + n\<close>, untouched; its length
  is \<open>n\<close> whenever that range lies inside the buffer. \<^verbatim>\<open>uncompressedSize\<close> is not
  consulted.
\<close>

theorem store_is_slice:
  assumes "(case entry of
              CentralDirectoryEntry c \<Rightarrow> readLocalFile (dataView s) (int (offset_of c))
            | LocalFileEntry e' \<Rightarrow> Inr e') = Inr e"
    and "compressionMethod e = 0"
    and "n = (if compressedSize e \<noteq> 0 then compressedSize e
              else numOf (getProp (entryProps entry) ''compressedSize''))"
  shows "extract_entry inflate s entry ty
           = Inr (Blob [bufferSlice (dataView s) (startsAt e) (startsAt e + int n)] [])
         \<and> (0 \<le> startsAt e \<and> startsAt e + int n \<le> byteLength s
              \<longrightarrow> length (bufferSlice (dataView s) (startsAt e) (startsAt e + int n)) = n)"
  using assms
  by (auto simp: extract_entry_def Let_def bufferSlice_def clampIndex_def byteLength_def
      split: entry.splits)

definition stored_file :: "byte list" where
  "stored_file =
     [0x50, 0x4b, 0x03, 0x04, 20, 0, 0, 0, 0, 0, 0, 0, 0, 0, 0, 0, 0, 0, 3, 0, 0, 0, 3, 0,
      0, 0, 1, 0, 0, 0, 0x61]
     @ [0x68, 0x69, 0x21]"

theorem store_is_slice_witness:
  "\<exists>e. readLocalFile stored_file 0 = Inr e \<and> compressionMethod e = 0
     \<and> compressedSize e = 3 \<and> uncompressedSize e = 3
     \<and> extract_entry (\<lambda>b. Inr [b]) (newZipReader stored_file) (LocalFileEntry e) []
         = Inr (Blob [[0x68, 0x69, 0x21]] [])
     \<and> length (bufferSlice stored_file (startsAt e) (startsAt e + 3)) = compressedSize e"
proof -
  obtain e where e: "readLocalFile stored_file 0 = Inr e" "compressionMethod e = 0"
    "compressedSize e = 3" "uncompressedSize e = 3" "startsAt e = 31"
    by (simp add: stored_file_def decoder_defs)
  have s: "bufferSlice stored_file 31 34 = [0x68, 0x69, 0x21]"
    by (simp add: stored_file_def bufferSlice_def clampIndex_def)
  have len: "byteLength (newZipReader stored_file) = 34"
    by (simp add: byteLength_def newZipReader_def stored_file_def)
  have "extract_entry (\<lambda>b. Inr [b]) (newZipReader stored_file) (LocalFileEntry e) []
          = Inr (Blob [bufferSlice (dataView (newZipReader stored_file)) (startsAt e)
                         (startsAt e + int 3)] [])
        \<and> length (bufferSlice (dataView (newZipReader stored_file)) (startsAt e)
                    (startsAt e + int 3)) = 3"
    using store_is_slice [where entry = "LocalFileEntry e" and s = "newZipReader stored_file"
        and e = e and n = 3 and inflate = "\<lambda>b. Inr [b]" and ty = "[]"] e len
    by simp
  then show ?thesis
    using e s by (simp add: newZipReader_def)
qed

text \<open>
  A complete archive of one stored byte whose local file header declares method 0 while
  its central directory entry declares method 12.
\<close>

definition method_mismatch :: "byte list" where
  "method_mismatch =
     [0x50, 0x4b, 0x03, 0x04, 20, 0, 0, 0, 0, 0, 0, 0, 0, 0, 0, 0, 0, 0, 1, 0, 0, 0, 1, 0,
      0, 0, 0, 0, 0, 0]
     @ [0x41]
     @ [0x50, 0x4b, 0x01, 0x02, 20, 0, 20, 0, 0, 0, 12, 0, 0, 0, 0, 0, 0, 0, 0, 0, 1, 0, 0, 0,
        1, 0, 0, 0, 0, 0, 0, 0, 0, 0, 0, 0, 0, 0, 0, 0, 0, 0, 0, 0, 0, 0]
     @ [0x50, 0x4b, 0x05, 0x06, 0, 0, 0, 0, 1, 0, 1, 0, 46, 0, 0, 0, 31, 0, 0, 0, 0, 0]"

text \<open>
  C8, as stated, fails: after \<^verbatim>\<open>read()\<close> on \<open>method_mismatch\<close> the central
  directory entry has compression method 12, and extracting it returns the stored byte:
  \<^verbatim>\<open>extract\<close> replaces a central directory entry by the local file header at its
  offset and looks at the method of that header only.
\<close>

theorem central_method_not_consulted:
  "map_sum fst
     (\<lambda>s. map (\<lambda>c. (compressionMethod c,
                       extract_entry (\<lambda>b. Inr [b]) s (CentralDirectoryEntry c) []))
            (centralDirectories s))
     (read False (newZipReader method_mismatch))
   = Inr [(12, Inr (Blob [[0x41]] []))]"
  by (simp add: method_mismatch_def decoder_defs reader_defs extract_entry_def
      bufferSlice_def clampIndex_def)

text \<open>
  C8, amended. Let \<open>e\<close> be the local file entry that \<^verbatim>\<open>extract\<close> works on (the
  entry itself, or the header decoded at the offset of a central directory entry). If
  its method is neither 0 nor 8, \<^verbatim>\<open>extract\<close> fails with
  \<^verbatim>\<open>Error("Unsupported compression method")\<close> and returns no bytes. The archive
  object is only read: \<open>extract_entry\<close> returns no state.
\<close>

theorem unsupported_method:
  assumes "(case entry of
              CentralDirectoryEntry c \<Rightarrow> readLocalFile (dataView s) (int (offset_of c))
            | LocalFileEntry e' \<Rightarrow> Inr e') = Inr e"
    and "compressionMethod e \<noteq> 0x00" and "compressionMethod e \<noteq> 0x08"
  shows "extract_entry inflate s entry ty = Inl (Error ''Unsupported compression method'')"
  using assms
  by (auto simp: extract_entry_def Let_def split: entry.splits)

definition lzma_file :: "byte list" where
  "lzma_file =
     [0x50, 0x4b, 0x03, 0x04, 20, 0, 0, 0, 12, 0, 0, 0, 0, 0, 0, 0, 0, 0, 2, 0, 0, 0, 9, 0,
      0, 0, 0, 0, 0, 0]
     @ [0x07, 0x08]"

theorem unsupported_method_witness:
  "\<exists>e. readLocalFile lzma_file 0 = Inr e \<and> compressionMethod e = 12
     \<and> extract_entry (\<lambda>b. Inr [b]) (newZipReader lzma_file) (LocalFileEntry e) []
         = Inl (Error ''Unsupported compression method'')"
proof -
  obtain e where e: "readLocalFile lzma_file 0 = Inr e" "compressionMethod e = 12"
    by (simp add: lzma_file_def decoder_defs)
  show ?thesis
    using e unsupported_method [where entry = "LocalFileEntry e" and e = e
        and s = "newZipReader lzma_file" and inflate = "\<lambda>b. Inr [b]" and ty = "[]"]
    by simp
qed

section \<open>Validation of a candidate offset\<close>

text \<open>
  The entries that the inner loop of the validation appends, in the words of the
  specification: central directory entries decoded one after the other from the declared
  offset, each starting below the candidate offset, until the read position reaches it.
\<close>

fun cdChain :: "byte list \<Rightarrow> int \<Rightarrow> int \<Rightarrow> obj list \<Rightarrow> bool" where
  "cdChain buf readOffset offset [] = (\<not> readOffset < offset)"
| "cdChain buf readOffset offset (c # cs) =
     (readOffset < offset \<and> readCentralDirectory buf readOffset = Inr c
      \<and> cdChain buf (readOffset + int (totalLength c)) offset cs)"

lemma readCentralDirectories_chain:
  "readCentralDirectories offset s readOffset = Inr s'
   \<longleftrightarrow> (\<exists>cds. cdChain (dataView s) readOffset offset cds
              \<and> s' = s\<lparr>centralDirectories := centralDirectories s @ cds\<rparr>)"
proof (induction offset s readOffset rule: readCentralDirectories.induct)
  case (1 offset s readOffset)
  show ?case
  proof (cases "readOffset < offset")
    case False
    have "\<And>cds. cdChain (dataView s) readOffset offset cds \<longleftrightarrow> cds = []"
      using False by (case_tac cds) auto
    then show ?thesis
      using False by (subst readCentralDirectories.simps) auto
  next
    case True
    show ?thesis
    proof (cases "readCentralDirectory (dataView s) readOffset")
      case (Inl e)
      have "\<And>cds. \<not> cdChain (dataView s) readOffset offset cds"
        using True Inl by (case_tac cds) auto
      then show ?thesis
        using True Inl by (subst readCentralDirectories.simps) auto
    next
      case (Inr c)
      have step: "readCentralDirectories offset s readOffset
          = readCentralDirectories offset (s\<lparr>centralDirectories := centralDirectories s @ [c]\<rparr>)
              (readOffset + int (totalLength c))"
        using True Inr by (subst readCentralDirectories.simps) simp
      have chain: "\<And>cds. cdChain (dataView s) readOffset offset cds
          \<longleftrightarrow> (\<exists>cs. cds = c # cs \<and> cdChain (dataView s) (readOffset + int (totalLength c)) offset cs)"
        using True Inr by (case_tac cds) auto
      show ?thesis
        unfolding step "1.IH" [OF True Inr] chain
        by auto
    qed
  qed
qed

lemma readCentralDirectories_fault:
  "readCentralDirectories offset s readOffset = Inl (e, s')
   \<Longrightarrow> \<exists>cds. s' = s\<lparr>centralDirectories := centralDirectories s @ cds\<rparr>"
proof (induction offset s readOffset rule: readCentralDirectories.induct)
  case (1 offset s readOffset)
  show ?case
  proof (cases "readOffset < offset")
    case False
    then show ?thesis
      using "1.prems" by (subst (asm) readCentralDirectories.simps) simp
  next
    case True
    show ?thesis
    proof (cases "readCentralDirectory (dataView s) readOffset")
      case (Inl e')
      then have "s' = s"
        using True "1.prems" by (subst (asm) readCentralDirectories.simps) simp
      then have "s' = s\<lparr>centralDirectories := centralDirectories s @ []\<rparr>" by simp
      then show ?thesis by blast
    next
      case (Inr c)
      have "readCentralDirectories offset
              (s\<lparr>centralDirectories := centralDirectories s @ [c]\<rparr>)
              (readOffset + int (totalLength c)) = Inl (e, s')"
        using True Inr "1.prems" by (subst (asm) readCentralDirectories.simps) simp
      from "1.IH" [OF True Inr this] obtain cds where
        "s' = s\<lparr>centralDirectories := centralDirectories s @ [c] @ cds\<rparr>" by auto
      then show ?thesis by blast
    qed
  qed
qed

text \<open>
  A streamed entry (bit 3 set, no name, no data), a central directory entry whose file
  name length, 23, runs one byte past the end of the buffer, and an end of central
  directory record without comment that points to it.
\<close>

definition overlong_name :: "byte list" where
  "overlong_name =
     [0x50, 0x4b, 0x03, 0x04, 20, 0, 8, 0, 0, 0, 0, 0, 0, 0, 0, 0, 0, 0, 0, 0, 0, 0, 0, 0,
      0, 0, 0, 0, 0, 0]
     @ [0x50, 0x4b, 0x01, 0x02, 20, 0, 20, 0, 8, 0, 0, 0, 0, 0, 0, 0, 0, 0, 0, 0, 0, 0, 0, 0,
        0, 0, 0, 0, 23, 0, 0, 0, 0, 0, 0, 0, 0, 0, 0, 0, 0, 0, 0, 0, 0, 0]
     @ [0x50, 0x4b, 0x05, 0x06, 0, 0, 0, 0, 1, 0, 1, 0, 46, 0, 0, 0, 30, 0, 0, 0, 0, 0]"

text \<open>
  C3, as stated, fails: at offset 76 of \<open>overlong_name\<close> the signature is
  \<open>0x06054b50\<close>, the decoded record consumes exactly the 22 bytes that are left, and
  the signature at its central directory offset is \<open>0x02014b50\<close>; yet the validation
  does not succeed. It stores the record and then throws a \<^verbatim>\<open>RangeError\<close> while
  decoding the central directory entry.
\<close>

theorem valid_candidate_faults:
  "getUint32 overlong_name 76 = Inr 0x06054b50
   \<and> map_sum id (\<lambda>r. (int (totalLength r) = int (length overlong_name) - 76,
                        getUint32 overlong_name (int (centralDirectoryOffset r))))
        (readEndCentralDirectory overlong_name 76) = Inr (True, Inr 0x02014b50)
   \<and> map_sum (\<lambda>(e, s). (e, endOfCentralDirectory s \<noteq> None, centralDirectories s)) fst
        (heuristicsCentralDirectorySearch (newZipReader overlong_name) 76)
      = Inl (RangeError, True, [])"
  by (simp add: overlong_name_def decoder_defs reader_defs readChars_unfold)

text \<open>
  C3, amended. The validation succeeds exactly when the three conditions hold and the
  central directory entries decode, one after the other and inside the buffer, from the
  declared offset up to the candidate offset; the state is then the old one with the
  record stored and those entries appended. When the three conditions hold and the
  entries do not decode, the record is stored all the same and the call throws.
\<close>

theorem validation_iff:
  "(heuristicsCentralDirectorySearch s offset = Inr (True, s')
    \<longleftrightarrow> (\<exists>r cds. getUint32 (dataView s) offset = Inr 0x06054b50
          \<and> readEndCentralDirectory (dataView s) offset = Inr r
          \<and> int (totalLength r) = byteLength s - offset
          \<and> getUint32 (dataView s) (int (centralDirectoryOffset r)) = Inr 0x02014b50
          \<and> cdChain (dataView s) (int (centralDirectoryOffset r)) offset cds
          \<and> s' = s\<lparr>endOfCentralDirectory := Some r,
                    centralDirectories := centralDirectories s @ cds\<rparr>))
   \<and> (\<forall>r. getUint32 (dataView s) offset = Inr 0x06054b50
          \<and> readEndCentralDirectory (dataView s) offset = Inr r
          \<and> int (totalLength r) = byteLength s - offset
          \<and> getUint32 (dataView s) (int (centralDirectoryOffset r)) = Inr 0x02014b50
          \<and> (\<forall>cds. \<not> cdChain (dataView s) (int (centralDirectoryOffset r)) offset cds)
        \<longrightarrow> (\<exists>e cds. heuristicsCentralDirectorySearch s offset
                 = Inl (e, s\<lparr>endOfCentralDirectory := Some r,
                             centralDirectories := centralDirectories s @ cds\<rparr>)))"
proof (intro conjI allI impI iffI)
  assume "heuristicsCentralDirectorySearch s offset = Inr (True, s')"
  then show "\<exists>r cds. getUint32 (dataView s) offset = Inr 0x06054b50
          \<and> readEndCentralDirectory (dataView s) offset = Inr r
          \<and> int (totalLength r) = byteLength s - offset
          \<and> getUint32 (dataView s) (int (centralDirectoryOffset r)) = Inr 0x02014b50
          \<and> cdChain (dataView s) (int (centralDirectoryOffset r)) offset cds
          \<and> s' = s\<lparr>endOfCentralDirectory := Some r,
                    centralDirectories := centralDirectories s @ cds\<rparr>"
    by (auto simp: heuristicsCentralDirectorySearch_def readCentralDirectories_chain
        split: sum.splits if_splits)
next
  assume "\<exists>r cds. getUint32 (dataView s) offset = Inr 0x06054b50
          \<and> readEndCentralDirectory (dataView s) offset = Inr r
          \<and> int (totalLength r) = byteLength s - offset
          \<and> getUint32 (dataView s) (int (centralDirectoryOffset r)) = Inr 0x02014b50
          \<and> cdChain (dataView s) (int (centralDirectoryOffset r)) offset cds
          \<and> s' = s\<lparr>endOfCentralDirectory := Some r,
                    centralDirectories := centralDirectories s @ cds\<rparr>"
  then obtain r cds where h: "getUint32 (dataView s) offset = Inr 0x06054b50"
    "readEndCentralDirectory (dataView s) offset = Inr r"
    "int (totalLength r) = byteLength s - offset"
    "getUint32 (dataView s) (int (centralDirectoryOffset r)) = Inr 0x02014b50"
    "cdChain (dataView s) (int (centralDirectoryOffset r)) offset cds"
    "s' = s\<lparr>endOfCentralDirectory := Some r,
              centralDirectories := centralDirectories s @ cds\<rparr>"
    by blast
  have "readCentralDirectories offset (s\<lparr>endOfCentralDirectory := Some r\<rparr>)
          (int (centralDirectoryOffset r)) = Inr s'"
    using h(5,6) by (simp add: readCentralDirectories_chain) (rule exI [of _ cds], simp)
  then show "heuristicsCentralDirectorySearch s offset = Inr (True, s')"
    using h(1-4) by (simp add: heuristicsCentralDirectorySearch_def)
next
  fix r
  assume h: "getUint32 (dataView s) offset = Inr 0x06054b50
          \<and> readEndCentralDirectory (dataView s) offset = Inr r
          \<and> int (totalLength r) = byteLength s - offset
          \<and> getUint32 (dataView s) (int (centralDirectoryOffset r)) = Inr 0x02014b50
          \<and> (\<forall>cds. \<not> cdChain (dataView s) (int (centralDirectoryOffset r)) offset cds)"
  let ?run = "readCentralDirectories offset (s\<lparr>endOfCentralDirectory := Some r\<rparr>)
          (int (centralDirectoryOffset r))"
  have "\<And>s'. ?run \<noteq> Inr s'"
    using h by (simp add: readCentralDirectories_chain)
  then obtain e s' where run: "?run = Inl (e, s')"
    by (cases ?run) auto
  from readCentralDirectories_fault [OF run] obtain cds where
    "s' = s\<lparr>endOfCentralDirectory := Some r,
              centralDirectories := centralDirectories s @ cds\<rparr>" by auto
  then show "\<exists>e cds. heuristicsCentralDirectorySearch s offset
                 = Inl (e, s\<lparr>endOfCentralDirectory := Some r,
                             centralDirectories := centralDirectories s @ cds\<rparr>)"
    using h run by (auto simp: heuristicsCentralDirectorySearch_def)
qed

text \<open>
  A complete archive of one streamed entry without name and without data: local file
  header (bit 3 set), data descriptor, central directory entry, end of central directory
  record without comment.
\<close>

definition streamed_empty :: "byte list" where
  "streamed_empty =
     [0x50, 0x4b, 0x03, 0x04, 20, 0, 8, 0, 0, 0, 0, 0, 0, 0, 0, 0, 0, 0, 0, 0, 0, 0, 0, 0,
      0, 0, 0, 0, 0, 0]
     @ [0x50, 0x4b, 0x07, 0x08, 0, 0, 0, 0, 0, 0, 0, 0, 0, 0, 0, 0]
     @ [0x50, 0x4b, 0x01, 0x02, 20, 0, 20, 0, 8, 0, 0, 0, 0, 0, 0, 0, 0, 0, 0, 0, 0, 0, 0, 0,
        0, 0, 0, 0, 0, 0, 0, 0, 0, 0, 0, 0, 0, 0, 0, 0, 0, 0, 0, 0, 0, 0]
     @ [0x50, 0x4b, 0x05, 0x06, 0, 0, 0, 0, 1, 0, 1, 0, 46, 0, 0, 0, 46, 0, 0, 0, 0, 0]"

theorem validation_iff_witness:
  "(\<exists>s' r cds. heuristicsCentralDirectorySearch (newZipReader streamed_empty) 92 = Inr (True, s')
     \<and> readEndCentralDirectory streamed_empty 92 = Inr r
     \<and> int (totalLength r) = int (length streamed_empty) - 92
     \<and> cdChain streamed_empty (int (centralDirectoryOffset r)) 92 cds
     \<and> endOfCentralDirectory s' = Some r \<and> centralDirectories s' = cds \<and> length cds = 1)
   \<and> (\<exists>r. readEndCentralDirectory overlong_name 76 = Inr r
          \<and> (\<forall>cds. \<not> cdChain overlong_name (int (centralDirectoryOffset r)) 76 cds)
          \<and> (\<exists>e cds. heuristicsCentralDirectorySearch (newZipReader overlong_name) 76
                 = Inl (e, (newZipReader overlong_name)\<lparr>endOfCentralDirectory := Some r,
                             centralDirectories := cds\<rparr>)))"
proof (intro conjI)
  obtain s' where s':
    "heuristicsCentralDirectorySearch (newZipReader streamed_empty) 92 = Inr (True, s')"
    "length (centralDirectories s') = 1"
    by (simp add: streamed_empty_def decoder_defs reader_defs)
  from validation_iff [THEN conjunct1, THEN iffD1, OF s'(1)] s'
  show "\<exists>s' r cds. heuristicsCentralDirectorySearch (newZipReader streamed_empty) 92 = Inr (True, s')
     \<and> readEndCentralDirectory streamed_empty 92 = Inr r
     \<and> int (totalLength r) = int (length streamed_empty) - 92
     \<and> cdChain streamed_empty (int (centralDirectoryOffset r)) 92 cds
     \<and> endOfCentralDirectory s' = Some r \<and> centralDirectories s' = cds \<and> length cds = 1"
    by (auto simp: newZipReader_def byteLength_def)
next
  obtain r where r: "readEndCentralDirectory overlong_name 76 = Inr r"
    "int (totalLength r) = int (length overlong_name) - 76"
    "centralDirectoryOffset r = 30"
    by (simp add: overlong_name_def decoder_defs)
  have sig: "getUint32 overlong_name 76 = Inr 0x06054b50"
    "getUint32 overlong_name 30 = Inr 0x02014b50"
    by (simp_all add: overlong_name_def getUint32_def)
  have bad: "readCentralDirectory overlong_name 30 = Inl RangeError"
    by (simp add: overlong_name_def decoder_defs readChars_unfold)
  have none: "\<not> cdChain overlong_name 30 76 cds" for cds
    using bad by (cases cds) simp_all
  from validation_iff [THEN conjunct2, rule_format, of "newZipReader overlong_name" 76 r]
    r sig none
  have "\<exists>e cds. heuristicsCentralDirectorySearch (newZipReader overlong_name) 76
                 = Inl (e, (newZipReader overlong_name)\<lparr>endOfCentralDirectory := Some r,
                             centralDirectories := cds\<rparr>)"
    by (simp add: newZipReader_def byteLength_def)
  with r none
  show "\<exists>r. readEndCentralDirectory overlong_name 76 = Inr r
          \<and> (\<forall>cds. \<not> cdChain overlong_name (int (centralDirectoryOffset r)) 76 cds)
          \<and> (\<exists>e cds. heuristicsCentralDirectorySearch (newZipReader overlong_name) 76
                 = Inl (e, (newZipReader overlong_name)\<lparr>endOfCentralDirectory := Some r,
                             centralDirectories := cds\<rparr>))"
    by auto
qed

section \<open>The locator\<close>

text \<open>
  The state a call ends with, whether it returns or throws, and the part of the state
  that the specification calls the archive state: cursor, local entries, central
  directory entries, end of central directory record.
\<close>

definition finalState :: "ZipReader outcome \<Rightarrow> ZipReader" where
  "finalState r = (case r of Inl (e, s) \<Rightarrow> s | Inr s \<Rightarrow> s)"

definition archiveState :: "ZipReader \<Rightarrow> int \<times> LocalFile list \<times> obj list \<times> obj option" where
  "archiveState s = (index s, localFiles s, centralDirectories s, endOfCentralDirectory s)"

definition outcomeState ::
  "ZipReader outcome \<Rightarrow> (error \<times> int \<times> LocalFile list \<times> obj list \<times> obj option)
                         + int \<times> LocalFile list \<times> obj list \<times> obj option" where
  "outcomeState r = map_sum (map_prod id archiveState) archiveState r"

text \<open>
  The validation does not look at \<^verbatim>\<open>backwardIndex\<close>, leaves the state alone when
  it returns false, and stores a record when it returns true.
\<close>

lemma archiveState_backwardIndex [simp]:
  "archiveState (s\<lparr>backwardIndex := b\<rparr>) = archiveState s"
  by (simp add: archiveState_def)

lemma byteLength_backwardIndex [simp]:
  "byteLength (s\<lparr>backwardIndex := b\<rparr>) = byteLength s"
  by (simp add: byteLength_def)

lemma backwardIndex_centralDirectories_swap:
  "s\<lparr>backwardIndex := b, centralDirectories := x\<rparr>
   = s\<lparr>centralDirectories := x, backwardIndex := b\<rparr>"
  by (cases s) simp

lemma backwardIndex_endOfCentralDirectory_swap:
  "s\<lparr>backwardIndex := b, endOfCentralDirectory := r\<rparr>
   = s\<lparr>endOfCentralDirectory := r, backwardIndex := b\<rparr>"
  by (cases s) simp

lemma readCentralDirectories_backwardIndex:
  "readCentralDirectories offset (s\<lparr>backwardIndex := b\<rparr>) readOffset
   = map_sum (map_prod id (\<lambda>t. t\<lparr>backwardIndex := b\<rparr>)) (\<lambda>t. t\<lparr>backwardIndex := b\<rparr>)
       (readCentralDirectories offset s readOffset)"
proof (induction offset s readOffset rule: readCentralDirectories.induct)
  case (1 offset s readOffset)
  show ?case
  proof (cases "readOffset < offset")
    case False
    then show ?thesis
      by (subst readCentralDirectories.simps, subst (2) readCentralDirectories.simps) simp
  next
    case True
    show ?thesis
    proof (cases "readCentralDirectory (dataView s) readOffset")
      case (Inl e)
      with True show ?thesis
        by (subst readCentralDirectories.simps, subst (2) readCentralDirectories.simps) simp
    next
      case (Inr c)
      have L: "readCentralDirectories offset (s\<lparr>backwardIndex := b\<rparr>) readOffset
          = readCentralDirectories offset
              ((s\<lparr>centralDirectories := centralDirectories s @ [c]\<rparr>)\<lparr>backwardIndex := b\<rparr>)
              (readOffset + int (totalLength c))"
        using True Inr
        by (subst readCentralDirectories.simps)
          (simp add: backwardIndex_centralDirectories_swap)
      have R: "readCentralDirectories offset s readOffset
          = readCentralDirectories offset (s\<lparr>centralDirectories := centralDirectories s @ [c]\<rparr>)
              (readOffset + int (totalLength c))"
        using True Inr by (subst readCentralDirectories.simps) simp
      show ?thesis
        unfolding L R by (rule "1.IH" [OF True Inr])
    qed
  qed
qed

lemma heuristics_backwardIndex:
  "heuristicsCentralDirectorySearch (s\<lparr>backwardIndex := b\<rparr>) offset
   = map_sum (map_prod id (\<lambda>t. t\<lparr>backwardIndex := b\<rparr>))
       (map_prod id (\<lambda>t. t\<lparr>backwardIndex := b\<rparr>))
       (heuristicsCentralDirectorySearch s offset)"
  unfolding heuristicsCentralDirectorySearch_def
  by (simp add: backwardIndex_endOfCentralDirectory_swap readCentralDirectories_backwardIndex
      split: sum.splits)

lemma heuristics_False:
  "heuristicsCentralDirectorySearch s offset = Inr (False, s') \<Longrightarrow> s' = s"
  by (auto simp: heuristicsCentralDirectorySearch_def split: sum.splits if_splits)

lemma heuristics_True:
  assumes "heuristicsCentralDirectorySearch s offset = Inr (True, s')"
  shows "\<exists>r. endOfCentralDirectory s' = Some r
             \<and> readEndCentralDirectory (dataView s) offset = Inr r
             \<and> int (totalLength r) = byteLength s - offset"
    and "index s' = index s" and "localFiles s' = localFiles s"
    and "dataView s' = dataView s" and "backwardIndex s' = backwardIndex s"
  using assms
  by (auto simp: heuristicsCentralDirectorySearch_def readCentralDirectories_chain
      split: sum.splits if_splits)

lemma heuristics_fault:
  assumes "heuristicsCentralDirectorySearch s offset = Inl (e, s')"
  shows "endOfCentralDirectory s' = endOfCentralDirectory s
         \<or> (\<exists>r. endOfCentralDirectory s' = Some r \<and> int (totalLength r) = byteLength s - offset)"
    and "index s' = index s" and "localFiles s' = localFiles s"
    and "dataView s' = dataView s" and "backwardIndex s' = backwardIndex s"
  using assms
  by (auto simp: heuristicsCentralDirectorySearch_def
      split: sum.splits if_splits dest!: readCentralDirectories_fault)


lemma probeHotSpots_backwardIndex:
  "probeHotSpots cs (s\<lparr>backwardIndex := b\<rparr>)
   = map_sum (map_prod id (\<lambda>t. t\<lparr>backwardIndex := b\<rparr>)) (\<lambda>t. t\<lparr>backwardIndex := b\<rparr>)
       (probeHotSpots cs s)"
proof (induction cs arbitrary: s)
  case Nil
  show ?case by simp
next
  case (Cons c cs)
  show ?case
  proof (cases "heuristicsCentralDirectorySearch s c")
    case (Inl x)
    then show ?thesis
      by (cases x) (simp add: heuristics_backwardIndex)
  next
    case (Inr y)
    obtain found s' where y: "y = (found, s')" by (cases y)
    show ?thesis
      using Inr y Cons.IH [of s'] by (simp add: heuristics_backwardIndex)
  qed
qed

lemma probeHotSpots_append:
  assumes "endOfCentralDirectory s = None"
  shows "probeHotSpots (hs @ bs) s
         = (case probeHotSpots hs s of
              Inl x \<Rightarrow> Inl x
            | Inr s' \<Rightarrow> if endOfCentralDirectory s' = None then probeHotSpots bs s' else Inr s')"
  using assms
proof (induction hs arbitrary: s)
  case Nil
  then show ?case by simp
next
  case (Cons h hs)
  show ?case
  proof (cases "heuristicsCentralDirectorySearch s h")
    case (Inl x)
    then show ?thesis by simp
  next
    case (Inr y)
    obtain found s' where y: "y = (found, s')" by (cases y)
    show ?thesis
    proof (cases found)
      case True
      with Inr y heuristics_True(1) [of s h s'] show ?thesis by auto
    next
      case False
      with Inr y heuristics_False [of s h s'] have "s' = s" by simp
      with Inr y False Cons.IH [OF Cons.prems] show ?thesis by simp
    qed
  qed
qed

lemma probeHotSpots_none:
  assumes "probeHotSpots cs s = Inr s'" and "endOfCentralDirectory s' = None"
  shows "s' = s"
  using assms
proof (induction cs arbitrary: s)
  case Nil
  then show ?case by simp
next
  case (Cons c cs)
  show ?case
  proof (cases "heuristicsCentralDirectorySearch s c")
    case (Inl x)
    with Cons.prems show ?thesis by simp
  next
    case (Inr y)
    obtain found t where y: "y = (found, t)" by (cases y)
    show ?thesis
    proof (cases found)
      case True
      with Inr y Cons.prems heuristics_True(1) [of s c t] show ?thesis by auto
    next
      case False
      with Inr y heuristics_False [of s c t] have "t = s" by simp
      with Inr y False Cons.prems Cons.IH [of s] show ?thesis by simp
    qed
  qed
qed

lemma bruteForce_found:
  "endOfCentralDirectory s \<noteq> None \<Longrightarrow> bruteForce s = Inr s"
  by (subst bruteForce.simps) (auto split: option.splits)

lemma bruteForce_as_probes:
  assumes "backwardIndex s = Some b" and "endOfCentralDirectory s = None"
  shows "outcomeState (bruteForce s)
         = outcomeState (probeHotSpots (rev [max (index s) 0 + 1 .. b]) s)"
  using assms
proof (induction s arbitrary: b rule: bruteForce.induct)
  case (1 s)
  show ?case
  proof (cases "b > 0 \<and> b > index s")
    case False
    then have "[max (index s) 0 + 1 .. b] = []" by (auto simp: max_def)
    moreover have "bruteForce s = Inr s"
      using False "1.prems" by (subst bruteForce.simps) auto
    ultimately show ?thesis by simp
  next
    case True
    then have "max (index s) 0 + 1 \<le> b" by (auto simp: max_def)
    then have cs: "rev [max (index s) 0 + 1 .. b] = b # rev [max (index s) 0 + 1 .. b - 1]"
      using upto_rec2 [of "max (index s) 0 + 1" b] by simp
    show ?thesis
    proof (cases "heuristicsCentralDirectorySearch s b")
      case (Inl x)
      then have "bruteForce s = Inl x"
        using True "1.prems" by (subst bruteForce.simps) simp
      with Inl cs show ?thesis by simp
    next
      case (Inr y)
      obtain found s' where y: "y = (found, s')" by (cases y)
      show ?thesis
      proof (cases found)
        case True': True
        have "bruteForce s = Inr s'"
          using True True' Inr y "1.prems" by (subst bruteForce.simps) simp
        with Inr y True' cs show ?thesis by simp
      next
        case False
        with Inr y heuristics_False [of s b s'] have s': "s' = s" by simp
        have step: "bruteForce s = bruteForce (s\<lparr>backwardIndex := Some (b - 1)\<rparr>)"
          using True False Inr y s' "1.prems" by (subst bruteForce.simps) simp
        have "outcomeState (bruteForce (s\<lparr>backwardIndex := Some (b - 1)\<rparr>))
              = outcomeState (probeHotSpots (rev [max (index s) 0 + 1 .. b - 1])
                                (s\<lparr>backwardIndex := Some (b - 1)\<rparr>))"
          using "1.IH" [of b "(found, s')" found s' "b - 1"] "1.prems" True False Inr y s'
          by simp
        also have "\<dots> = outcomeState (probeHotSpots (rev [max (index s) 0 + 1 .. b - 1]) s)"
          by (simp add: probeHotSpots_backwardIndex outcomeState_def sum.map_comp
              prod.map_comp comp_def id_def)
        finally show ?thesis
          using step Inr y False s' cs by simp
      qed
    qed
  qed
qed

text \<open>
  The offsets that the locator hands to the validation when none of them is decisive,
  read off the two loops: the hot spots, then \<open>byteLength - 23\<close> and downwards as long
  as the offset is positive and above the cursor.
\<close>

definition probedOffsets :: "ZipReader \<Rightarrow> int list" where
  "probedOffsets s =
     [byteLength s - 22]
     @ (if byteLength s > 64 * 1024 + 22 then [byteLength s - 65536 - 22] else [])
     @ rev [max (index s) 0 + 1 .. byteLength s - 23]"

lemma locate_as_probes:
  assumes none: "endOfCentralDirectory s = None"
  shows "outcomeState (locate s) = outcomeState (probeHotSpots (probedOffsets s) s)"
proof -
  let ?bs = "rev [max (index s) 0 + 1 .. byteLength s - 23]"
  have cands: "probedOffsets s = hotSpots s @ ?bs"
    by (simp add: probedOffsets_def hotSpots_def Let_def)
  show "outcomeState (locate s) = outcomeState (probeHotSpots (probedOffsets s) s)"
  proof (cases "probeHotSpots (hotSpots s) s")
    case (Inl x)
    then show ?thesis
      using none by (simp add: locate_def cands probeHotSpots_append)
  next
    case (Inr s')
    show ?thesis
    proof (cases "endOfCentralDirectory s' = None")
      case False
      then show ?thesis
        using none Inr
        by (auto simp: locate_def cands probeHotSpots_append bruteForce_found outcomeState_def)
    next
      case True
      with Inr have s': "s' = s" by (rule probeHotSpots_none)
      have "outcomeState (bruteForce (s\<lparr>backwardIndex := Some (byteLength s - 23)\<rparr>))
            = outcomeState (probeHotSpots ?bs (s\<lparr>backwardIndex := Some (byteLength s - 23)\<rparr>))"
        using bruteForce_as_probes [of "s\<lparr>backwardIndex := Some (byteLength s - 23)\<rparr>"
            "byteLength s - 23"] none
        by simp
      also have "\<dots> = outcomeState (probeHotSpots ?bs s)"
        by (simp add: probeHotSpots_backwardIndex outcomeState_def sum.map_comp
            prod.map_comp comp_def id_def)
      finally show ?thesis
        using none Inr s' by (simp add: locate_def cands probeHotSpots_append)
    qed
  qed
qed

text \<open>
  The reader after the scan of \<open>streamed_empty\<close>, which stops behind the streamed
  header at cursor 30.
\<close>

definition streamed_scanned :: ZipReader where
  "streamed_scanned = finalState (scan False (newZipReader streamed_empty))"

text \<open>
  The same two loops, keeping a log of the offsets handed to the validation instead of
  the state: the hot spots in turn until one validates or throws, then the brute force
  loop.
\<close>

fun probeHotSpotsLog :: "int list \<Rightarrow> ZipReader \<Rightarrow> int list" where
  "probeHotSpotsLog [] s = []"
| "probeHotSpotsLog (h # hs) s =
     h # (case heuristicsCentralDirectorySearch s h of
            Inl x \<Rightarrow> []
          | Inr (found, s') \<Rightarrow> if found then [] else probeHotSpotsLog hs s')"

function bruteForceLog :: "ZipReader \<Rightarrow> int list" where
  "bruteForceLog s =
     (case backwardIndex s of
        None \<Rightarrow> []
      | Some b \<Rightarrow>
          if endOfCentralDirectory s = None \<and> b > 0 \<and> b > index s then
            b # (case heuristicsCentralDirectorySearch s b of
                   Inl x \<Rightarrow> []
                 | Inr (found, s') \<Rightarrow>
                     if found then [] else bruteForceLog (s'\<lparr>backwardIndex := Some (b - 1)\<rparr>))
          else [])"
  by pat_completeness auto
termination
proof (relation "measure (\<lambda>s. case backwardIndex s of None \<Rightarrow> 0 | Some b \<Rightarrow> nat b)")
  show "wf (measure (\<lambda>s. case backwardIndex s of None \<Rightarrow> 0 | Some b \<Rightarrow> nat b))" by simp
next
  fix s :: ZipReader and b :: int and s' :: ZipReader
  assume "backwardIndex s = Some b"
    and "endOfCentralDirectory s = None \<and> 0 < b \<and> index s < b"
  then show "(s'\<lparr>backwardIndex := Some (b - 1)\<rparr>, s)
             \<in> measure (\<lambda>s. case backwardIndex s of None \<Rightarrow> 0 | Some b \<Rightarrow> nat b)"
    by simp
qed

declare bruteForceLog.simps [simp del]

definition locateLog :: "ZipReader \<Rightarrow> int list" where
  "locateLog s =
     (if endOfCentralDirectory s = None then probeHotSpotsLog (hotSpots s) s else [])
     @ (case (if endOfCentralDirectory s = None then probeHotSpots (hotSpots s) s else Inr s) of
          Inl x \<Rightarrow> []
        | Inr s' \<Rightarrow> bruteForceLog (s'\<lparr>backwardIndex := Some (byteLength s' - 23)\<rparr>))"

text \<open>
  A candidate is decisive when its validation does not return false: it returns true
  or it throws. A search that goes through a list in order ends at, and includes, the
  first decisive one.
\<close>

definition decisive :: "ZipReader \<Rightarrow> int \<Rightarrow> bool" where
  "decisive s c =
     (case heuristicsCentralDirectorySearch s c of
        Inl x \<Rightarrow> True
      | Inr (found, s') \<Rightarrow> found)"

fun upToFirst :: "('a \<Rightarrow> bool) \<Rightarrow> 'a list \<Rightarrow> 'a list" where
  "upToFirst P [] = []"
| "upToFirst P (x # xs) = x # (if P x then [] else upToFirst P xs)"

lemma decisive_backwardIndex [simp]:
  "decisive (s\<lparr>backwardIndex := b\<rparr>) = decisive s"
  by (rule ext)
    (simp add: decisive_def heuristics_backwardIndex split: sum.splits prod.splits)

lemma not_decisive:
  "\<not> decisive s c \<Longrightarrow> heuristicsCentralDirectorySearch s c = Inr (False, s)"
  using heuristics_False [of s c]
  by (auto simp: decisive_def split: sum.splits prod.splits)

lemma probeHotSpots_outcome:
  "outcomeState (probeHotSpots cs s)
   = (case find (decisive s) cs of
        None \<Rightarrow> Inr (archiveState s)
      | Some c \<Rightarrow> outcomeState (map_sum id snd (heuristicsCentralDirectorySearch s c)))"
proof (induction cs)
  case Nil
  show ?case by (simp add: outcomeState_def)
next
  case (Cons c cs)
  show ?case
  proof (cases "decisive s c")
    case False
    with Cons not_decisive [of s c] show ?thesis by simp
  next
    case True
    then show ?thesis
      by (auto simp: decisive_def outcomeState_def split: sum.splits prod.splits)
  qed
qed

lemma probeHotSpotsLog_upToFirst:
  "probeHotSpotsLog cs s = upToFirst (decisive s) cs"
proof (induction cs)
  case Nil
  show ?case by simp
next
  case (Cons c cs)
  show ?case
  proof (cases "decisive s c")
    case False
    with Cons not_decisive [of s c] show ?thesis by simp
  next
    case True
    then show ?thesis
      by (auto simp: decisive_def split: sum.splits prod.splits)
  qed
qed

lemma upToFirst_append:
  "upToFirst P (xs @ ys) = upToFirst P xs @ (if \<exists>x \<in> set xs. P x then [] else upToFirst P ys)"
  by (induction xs) auto

lemma probeHotSpots_undecided:
  "\<forall>c \<in> set cs. \<not> decisive s c \<Longrightarrow> probeHotSpots cs s = Inr s"
  by (induction cs) (auto dest: not_decisive)

lemma probeHotSpots_decided:
  assumes "\<exists>c \<in> set cs. decisive s c"
  shows "case probeHotSpots cs s of Inl x \<Rightarrow> True | Inr s' \<Rightarrow> endOfCentralDirectory s' \<noteq> None"
  using assms
proof (induction cs)
  case Nil
  then show ?case by simp
next
  case (Cons c cs)
  show ?case
  proof (cases "decisive s c")
    case False
    with Cons not_decisive [of s c] show ?thesis by simp
  next
    case True
    show ?thesis
    proof (cases "heuristicsCentralDirectorySearch s c")
      case (Inl x)
      then show ?thesis by simp
    next
      case (Inr y)
      obtain found s' where y: "y = (found, s')" by (cases y)
      with True Inr have "found" by (simp add: decisive_def)
      with Inr y heuristics_True(1) [of s c s'] show ?thesis by auto
    qed
  qed
qed

lemma bruteForceLog_found:
  "endOfCentralDirectory s \<noteq> None \<Longrightarrow> bruteForceLog s = []"
  by (subst bruteForceLog.simps) (auto split: option.splits)

lemma bruteForceLog_upToFirst:
  assumes "backwardIndex s = Some b" and "endOfCentralDirectory s = None"
  shows "bruteForceLog s = upToFirst (decisive s) (rev [max (index s) 0 + 1 .. b])"
  using assms
proof (induction s arbitrary: b rule: bruteForceLog.induct)
  case (1 s)
  show ?case
  proof (cases "b > 0 \<and> b > index s")
    case False
    then have "[max (index s) 0 + 1 .. b] = []" by (auto simp: max_def)
    moreover have "bruteForceLog s = []"
      using False "1.prems" by (subst bruteForceLog.simps) auto
    ultimately show ?thesis by simp
  next
    case True
    then have "max (index s) 0 + 1 \<le> b" by (auto simp: max_def)
    then have cs: "rev [max (index s) 0 + 1 .. b] = b # rev [max (index s) 0 + 1 .. b - 1]"
      using upto_rec2 [of "max (index s) 0 + 1" b] by simp
    show ?thesis
    proof (cases "decisive s b")
      case dec: True
      then have "bruteForceLog s = [b]"
        using True "1.prems"
        by (subst bruteForceLog.simps)
          (auto simp: decisive_def split: sum.splits prod.splits)
      with dec cs show ?thesis by simp
    next
      case False
      then have h: "heuristicsCentralDirectorySearch s b = Inr (False, s)"
        by (rule not_decisive)
      have step: "bruteForceLog s = b # bruteForceLog (s\<lparr>backwardIndex := Some (b - 1)\<rparr>)"
        using True h "1.prems" by (subst bruteForceLog.simps) simp
      have "bruteForceLog (s\<lparr>backwardIndex := Some (b - 1)\<rparr>)
            = upToFirst (decisive s) (rev [max (index s) 0 + 1 .. b - 1])"
        using "1.IH" [of b "(False, s)" False s "b - 1"] "1.prems" True h by simp
      with step False cs show ?thesis by simp
    qed
  qed
qed

lemma locateLog_upToFirst:
  assumes none: "endOfCentralDirectory s = None"
  shows "locateLog s = upToFirst (decisive s) (probedOffsets s)"
proof -
  let ?bs = "rev [max (index s) 0 + 1 .. byteLength s - 23]"
  have cands: "probedOffsets s = hotSpots s @ ?bs"
    by (simp add: probedOffsets_def hotSpots_def Let_def)
  show ?thesis
  proof (cases "\<exists>c \<in> set (hotSpots s). decisive s c")
    case True
    from probeHotSpots_decided [OF True]
    have "(case probeHotSpots (hotSpots s) s of
             Inl x \<Rightarrow> []
           | Inr s' \<Rightarrow> bruteForceLog (s'\<lparr>backwardIndex := Some (byteLength s' - 23)\<rparr>)) = []"
      by (auto simp: bruteForceLog_found split: sum.splits)
    then show ?thesis
      using none True
      by (simp add: locateLog_def cands upToFirst_append probeHotSpotsLog_upToFirst)
  next
    case False
    then have "probeHotSpots (hotSpots s) s = Inr s"
      by (intro probeHotSpots_undecided) simp
    moreover have "bruteForceLog (s\<lparr>backwardIndex := Some (byteLength s - 23)\<rparr>)
                   = upToFirst (decisive s) ?bs"
      using bruteForceLog_upToFirst [of "s\<lparr>backwardIndex := Some (byteLength s - 23)\<rparr>"
          "byteLength s - 23"] none
      by simp
    ultimately show ?thesis
      using none False
      by (simp add: locateLog_def cands upToFirst_append probeHotSpotsLog_upToFirst)
  qed
qed

text \<open>
  The candidates in the words of the claim: \<open>bufferLength - 22\<close>; then, if the buffer
  is larger than 64 KiB + 22 bytes, \<open>bufferLength - 65536 - 22\<close>; then from
  \<open>bufferLength - 23\<close> down to, but not below, the cursor where the scan stopped.
\<close>

definition candidates :: "ZipReader \<Rightarrow> int list" where
  "candidates s =
     [byteLength s - 22]
     @ (if byteLength s > 64 * 1024 + 22 then [byteLength s - 65536 - 22] else [])
     @ rev [index s .. byteLength s - 23]"

text \<open>
  An archive of one streamed entry whose 22 byte comment looks like an end of central
  directory record with a comment of its own: header (bit 3), central directory entry
  at 30, the record at 76 with comment length 22, the comment at 98.
  \<open>record_at_cursor\<close>: a streamed header, and at 30, where the scan stops, a record
  whose central directory offset points into its own comment.
\<close>

definition comment_like_record :: "byte list" where
  "comment_like_record =
     [0x50, 0x4b, 0x03, 0x04, 20, 0, 8, 0, 0, 0, 0, 0, 0, 0, 0, 0, 0, 0, 0, 0, 0, 0, 0, 0,
      0, 0, 0, 0, 0, 0]
     @ [0x50, 0x4b, 0x01, 0x02, 20, 0, 20, 0, 8, 0, 0, 0, 0, 0, 0, 0, 0, 0, 0, 0, 0, 0, 0, 0,
        0, 0, 0, 0, 0, 0, 0, 0, 0, 0, 0, 0, 0, 0, 0, 0, 0, 0, 0, 0, 0, 0]
     @ [0x50, 0x4b, 0x05, 0x06, 0, 0, 0, 0, 1, 0, 1, 0, 46, 0, 0, 0, 30, 0, 0, 0, 22, 0]
     @ [0x50, 0x4b, 0x05, 0x06, 0, 0, 0, 0, 0, 0, 0, 0, 0, 0, 0, 0, 0, 0, 0, 0, 1, 0]"

definition comment_scanned :: ZipReader where
  "comment_scanned = finalState (scan False (newZipReader comment_like_record))"

definition record_at_cursor :: "byte list" where
  "record_at_cursor =
     [0x50, 0x4b, 0x03, 0x04, 20, 0, 8, 0, 0, 0, 0, 0, 0, 0, 0, 0, 0, 0, 0, 0, 0, 0, 0, 0,
      0, 0, 0, 0, 0, 0]
     @ [0x50, 0x4b, 0x05, 0x06, 0, 0, 0, 0, 0, 0, 0, 0, 0, 0, 0, 0, 52, 0, 0, 0, 4, 0]
     @ [0x50, 0x4b, 0x01, 0x02]"

definition cursor_scanned :: ZipReader where
  "cursor_scanned = finalState (scan False (newZipReader record_at_cursor))"

text \<open>
  C4, as stated, fails, twice. On \<open>comment_like_record\<close> the scan stops at cursor 30
  without a record; of the candidates 98, 97, ..., 76 the first one throws (the record
  in the comment announces a comment the buffer does not have), the next 21 do not
  validate and 76 validates; \<^verbatim>\<open>read()\<close> throws at 98 and stores no record, so it
  does not go on to the first offset that validates. On \<open>record_at_cursor\<close> the
  candidates are 34, 33, 32, 31 and the cursor 30; only 30 validates, and
  \<^verbatim>\<open>read()\<close> returns without a record: the cursor itself is not validated.
\<close>

theorem locator_misses_candidates:
  "take 23 (candidates comment_scanned) = rev [76 .. 98]
   \<and> map (\<lambda>c. map_sum fst fst (heuristicsCentralDirectorySearch comment_scanned c))
         (rev [76 .. 98])
       = [Inl RangeError, Inr False, Inr False, Inr False, Inr False, Inr False, Inr False, Inr False,
           Inr False, Inr False, Inr False, Inr False, Inr False, Inr False, Inr False, Inr False,
           Inr False, Inr False, Inr False, Inr False, Inr False, Inr False, Inr True]
   \<and> map_sum (\<lambda>(e, s). (e, endOfCentralDirectory s)) endOfCentralDirectory
         (read False (newZipReader comment_like_record)) = Inl (RangeError, None)
   \<and> candidates cursor_scanned = [34, 33, 32, 31, 30]
   \<and> map (\<lambda>c. map_sum fst fst (heuristicsCentralDirectorySearch cursor_scanned c))
         (candidates cursor_scanned)
       = [Inr False, Inr False, Inr False, Inr False, Inr True]
   \<and> map_sum fst endOfCentralDirectory (read False (newZipReader record_at_cursor))
       = Inr None"
  by (simp add: comment_scanned_def cursor_scanned_def comment_like_record_def
      record_at_cursor_def candidates_def finalState_def decoder_defs reader_defs
      readChars_unfold upto.simps)

text \<open>
  A buffer of more than 64 KiB + 22 bytes: one stored entry of 65500 bytes and 29 more
  zero bytes. The scan stops at 65530; there are two hot spots, 65537 and 1.
\<close>

definition padded_entry :: "byte list" where
  "padded_entry =
     [0x50, 0x4b, 0x03, 0x04, 20, 0, 0, 0, 0, 0, 0, 0, 0, 0, 0, 0, 0, 0, 0xdc, 0xff, 0, 0,
      0xdc, 0xff, 0, 0, 0, 0, 0, 0]
     @ replicate 65529 0"

definition padded_scanned :: ZipReader where
  "padded_scanned = finalState (scan False (newZipReader padded_entry))"

text \<open>
  C4, amended. Let the scan of \<^verbatim>\<open>read()\<close> end in a state \<open>s\<close>. If \<open>s\<close> has no end
  of central directory record, the offsets handed to the validation are, in this order,
  \<open>byteLength - 22\<close>, then \<open>byteLength - 65536 - 22\<close> if the buffer is larger than
  64 KiB + 22 bytes, then \<open>byteLength - 23\<close> and downwards over the offsets strictly
  above the cursor, up to and including the first one that is decisive, that is, that
  validates or throws; \<^verbatim>\<open>read()\<close> ends as the validation of that offset ends
  (it throws if that throws), and returns with the archive state of \<open>s\<close> if none is
  decisive. If \<open>s\<close> has a record, no offset is validated.
\<close>

theorem locator_probes:
  assumes "scan False s0 = Inr s"
  shows "(endOfCentralDirectory s = None
          \<longrightarrow> locateLog s = upToFirst (decisive s) (probedOffsets s)
              \<and> outcomeState (read False s0)
                  = (case find (decisive s) (probedOffsets s) of
                       None \<Rightarrow> Inr (archiveState s)
                     | Some c \<Rightarrow>
                         outcomeState (map_sum id snd (heuristicsCentralDirectorySearch s c))))
         \<and> (endOfCentralDirectory s \<noteq> None
            \<longrightarrow> locateLog s = []
                \<and> read False s0 = Inr (s\<lparr>backwardIndex := Some (byteLength s - 23)\<rparr>))"
proof -
  have rd: "read False s0 = locate s"
    using assms by (simp add: read_def)
  show ?thesis
  proof (intro conjI impI)
    assume none: "endOfCentralDirectory s = None"
    then show "locateLog s = upToFirst (decisive s) (probedOffsets s)"
      by (rule locateLog_upToFirst)
    show "outcomeState (read False s0)
            = (case find (decisive s) (probedOffsets s) of
                 None \<Rightarrow> Inr (archiveState s)
               | Some c \<Rightarrow>
                   outcomeState (map_sum id snd (heuristicsCentralDirectorySearch s c)))"
      using locate_as_probes [OF none] by (simp add: rd probeHotSpots_outcome)
  next
    assume found: "endOfCentralDirectory s \<noteq> None"
    then show "locateLog s = []"
      by (auto simp: locateLog_def bruteForceLog_found)
    show "read False s0 = Inr (s\<lparr>backwardIndex := Some (byteLength s - 23)\<rparr>)"
      using found by (auto simp: rd locate_def bruteForce_found)
  qed
qed

theorem locator_probes_witness:
  "scan False (newZipReader streamed_empty) = Inr streamed_scanned
   \<and> endOfCentralDirectory streamed_scanned = None
   \<and> locateLog streamed_scanned = [92]
   \<and> scan False (newZipReader record_at_cursor) = Inr cursor_scanned
   \<and> endOfCentralDirectory cursor_scanned = None
   \<and> locateLog cursor_scanned = [34, 33, 32, 31]
   \<and> outcomeState (read False (newZipReader record_at_cursor))
       = Inr (archiveState cursor_scanned)
   \<and> scan False (newZipReader padded_entry) = Inr padded_scanned
   \<and> endOfCentralDirectory padded_scanned = None
   \<and> locateLog padded_scanned = [65537, 1, 65536, 65535, 65534, 65533, 65532, 65531]
   \<and> outcomeState (read False (newZipReader padded_entry))
       = Inr (archiveState padded_scanned)
   \<and> (\<exists>s. scan False (newZipReader method_mismatch) = Inr s
         \<and> endOfCentralDirectory s \<noteq> None \<and> locateLog s = []
         \<and> read False (newZipReader method_mismatch) = Inr (s\<lparr>backwardIndex := Some 76\<rparr>))"
proof -
  have a: "scan False (newZipReader streamed_empty) = Inr streamed_scanned"
    "endOfCentralDirectory streamed_scanned = None"
    "probedOffsets streamed_scanned = 92 # rev [31 .. 91]"
    "decisive streamed_scanned 92"
    by (simp_all add: streamed_scanned_def finalState_def streamed_empty_def probedOffsets_def
        decisive_def decoder_defs reader_defs)
  have b: "scan False (newZipReader record_at_cursor) = Inr cursor_scanned"
    "endOfCentralDirectory cursor_scanned = None"
    "probedOffsets cursor_scanned = [34, 33, 32, 31]"
    "\<not> decisive cursor_scanned 34" "\<not> decisive cursor_scanned 33"
    "\<not> decisive cursor_scanned 32" "\<not> decisive cursor_scanned 31"
    by (simp_all add: cursor_scanned_def finalState_def record_at_cursor_def probedOffsets_def
        decisive_def decoder_defs reader_defs upto.simps)
  have p: "scan False (newZipReader padded_entry) = Inr padded_scanned"
    "endOfCentralDirectory padded_scanned = None"
    "probedOffsets padded_scanned = [65537, 1, 65536, 65535, 65534, 65533, 65532, 65531]"
    "\<forall>c \<in> set [65537, 1, 65536, 65535, 65534, 65533, 65532, 65531].
       \<not> decisive padded_scanned c"
    by (simp_all add: padded_scanned_def finalState_def padded_entry_def probedOffsets_def
        decisive_def decoder_defs reader_defs nth_append upto.simps)
  obtain s where c: "scan False (newZipReader method_mismatch) = Inr s"
    "endOfCentralDirectory s \<noteq> None" "byteLength s = 99"
    by (simp add: method_mismatch_def decoder_defs reader_defs)
  show ?thesis
    using a b p c locator_probes [OF a(1)] locator_probes [OF b(1)]
      locator_probes [OF p(1)] locator_probes [OF c(1)]
    by auto
qed

section \<open>Hot spots and brute force\<close>








section \<open>What the locator leaves alone\<close>

text \<open>
  Whether it returns or throws, the locator keeps the cursor, the local entries and the
  buffer.
\<close>

lemma heuristics_frame:
  "index (finalState (map_sum id snd (heuristicsCentralDirectorySearch s offset))) = index s
   \<and> localFiles (finalState (map_sum id snd (heuristicsCentralDirectorySearch s offset)))
       = localFiles s
   \<and> dataView (finalState (map_sum id snd (heuristicsCentralDirectorySearch s offset)))
       = dataView s"
proof (cases "heuristicsCentralDirectorySearch s offset")
  case (Inl x)
  obtain e s' where "x = (e, s')" by (cases x)
  with Inl heuristics_fault(2-4) [of s offset e s'] show ?thesis
    by (simp add: finalState_def)
next
  case (Inr y)
  obtain found s' where y: "y = (found, s')" by (cases y)
  show ?thesis
  proof (cases found)
    case True
    with Inr y heuristics_True(2-4) [of s offset s'] show ?thesis
      by (simp add: finalState_def)
  next
    case False
    with Inr y heuristics_False [of s offset s'] show ?thesis
      by (simp add: finalState_def)
  qed
qed

lemma probeHotSpots_frame:
  "index (finalState (probeHotSpots cs s)) = index s
   \<and> localFiles (finalState (probeHotSpots cs s)) = localFiles s
   \<and> dataView (finalState (probeHotSpots cs s)) = dataView s"
proof (induction cs arbitrary: s)
  case Nil
  show ?case by (simp add: finalState_def)
next
  case (Cons c cs)
  show ?case
  proof (cases "heuristicsCentralDirectorySearch s c")
    case (Inl x)
    with heuristics_frame [of s c] show ?thesis
      by (simp add: finalState_def split: prod.splits)
  next
    case (Inr y)
    obtain found s' where y: "y = (found, s')" by (cases y)
    with Inr heuristics_frame [of s c] Cons.IH [of s'] show ?thesis
      by (simp add: finalState_def)
  qed
qed

lemma bruteForce_frame:
  "index (finalState (bruteForce s)) = index s
   \<and> localFiles (finalState (bruteForce s)) = localFiles s
   \<and> dataView (finalState (bruteForce s)) = dataView s"
proof (induction s rule: bruteForce.induct)
  case (1 s)
  show ?case
  proof (cases "backwardIndex s")
    case None
    then have "bruteForce s = Inr s" by (subst bruteForce.simps) simp
    then show ?thesis by (simp add: finalState_def)
  next
    case (Some b)
    show ?thesis
    proof (cases "endOfCentralDirectory s = None \<and> b > 0 \<and> b > index s")
      case False
      then have "bruteForce s = Inr s"
        using Some by (subst bruteForce.simps) auto
      then show ?thesis by (simp add: finalState_def)
    next
      case True
      show ?thesis
      proof (cases "heuristicsCentralDirectorySearch s b")
        case (Inl x)
        then have "bruteForce s = Inl x"
          using True Some by (subst bruteForce.simps) simp
        with Inl heuristics_frame [of s b] show ?thesis
          by (simp add: finalState_def split: prod.splits)
      next
        case (Inr y)
        obtain found s' where y: "y = (found, s')" by (cases y)
        show ?thesis
        proof (cases found)
          case True': True
          have "bruteForce s = Inr s'"
            using True True' Inr y Some by (subst bruteForce.simps) simp
          with Inr y heuristics_frame [of s b] show ?thesis
            by (simp add: finalState_def)
        next
          case False
          have step: "bruteForce s = bruteForce (s'\<lparr>backwardIndex := Some (b - 1)\<rparr>)"
            using True False Inr y Some by (subst bruteForce.simps) simp
          show ?thesis
            using "1.IH" [OF Some True Inr y [symmetric] False] step Inr y
              heuristics_frame [of s b]
            by (simp add: finalState_def)
        qed
      qed
    qed
  qed
qed

lemma locate_frame:
  "index (finalState (locate s)) = index s
   \<and> localFiles (finalState (locate s)) = localFiles s
   \<and> dataView (finalState (locate s)) = dataView s"
proof (cases "endOfCentralDirectory s = None")
  case False
  then show ?thesis
    by (auto simp: locate_def bruteForce_found finalState_def)
next
  case True
  show ?thesis
  proof (cases "probeHotSpots (hotSpots s) s")
    case (Inl x)
    with True probeHotSpots_frame [of "hotSpots s" s] show ?thesis
      by (simp add: locate_def)
  next
    case (Inr s')
    with True probeHotSpots_frame [of "hotSpots s" s]
      bruteForce_frame [of "s'\<lparr>backwardIndex := Some (byteLength s' - 23)\<rparr>"]
    show ?thesis
      by (simp add: locate_def finalState_def)
  qed
qed

section \<open>Reading twice\<close>

text \<open>
  A locator that has returned returns again, with the same archive state, when it is
  run on its own result.
\<close>

lemma bruteForce_none:
  assumes "bruteForce s = Inr s1" and "endOfCentralDirectory s1 = None"
  shows "\<exists>k. s1 = s\<lparr>backwardIndex := k\<rparr>"
  using assms
proof (induction s rule: bruteForce.induct)
  case (1 s)
  have same: "s1 = s \<Longrightarrow> \<exists>k. s1 = s\<lparr>backwardIndex := k\<rparr>"
    by (rule exI [of _ "backwardIndex s"]) simp
  show ?case
  proof (cases "backwardIndex s")
    case None
    then have "bruteForce s = Inr s" by (subst bruteForce.simps) simp
    with "1.prems" same show ?thesis by simp
  next
    case (Some b)
    show ?thesis
    proof (cases "endOfCentralDirectory s = None \<and> b > 0 \<and> b > index s")
      case False
      then have "bruteForce s = Inr s"
        using Some by (subst bruteForce.simps) auto
      with "1.prems" same show ?thesis by simp
    next
      case True
      show ?thesis
      proof (cases "heuristicsCentralDirectorySearch s b")
        case (Inl x)
        then have "bruteForce s = Inl x"
          using True Some by (subst bruteForce.simps) simp
        with "1.prems" show ?thesis by simp
      next
        case (Inr y)
        obtain found s' where y: "y = (found, s')" by (cases y)
        show ?thesis
        proof (cases found)
          case True': True
          have "bruteForce s = Inr s'"
            using True True' Inr y Some by (subst bruteForce.simps) simp
          with Inr y True' heuristics_True(1) [of s b s'] "1.prems" show ?thesis by auto
        next
          case False
          with Inr y heuristics_False [of s b s'] have s': "s' = s" by simp
          have step: "bruteForce s = bruteForce (s'\<lparr>backwardIndex := Some (b - 1)\<rparr>)"
            using True False Inr y Some by (subst bruteForce.simps) simp
          from "1.IH" [OF Some True Inr y [symmetric] False] step "1.prems"
          obtain k where "s1 = s'\<lparr>backwardIndex := Some (b - 1), backwardIndex := k\<rparr>"
            by auto
          then have "s1 = s\<lparr>backwardIndex := k\<rparr>" using s' by simp
          then show ?thesis by blast
        qed
      qed
    qed
  qed
qed

lemma hotSpots_backwardIndex:
  "hotSpots (s\<lparr>backwardIndex := b\<rparr>) = hotSpots s"
  by (simp add: hotSpots_def)

lemma locate_again:
  assumes "locate s = Inr s1"
  shows "\<exists>s2. locate s1 = Inr s2 \<and> archiveState s2 = archiveState s1"
proof (cases "endOfCentralDirectory s1 = None")
  case False
  then have "locate s1 = Inr (s1\<lparr>backwardIndex := Some (byteLength s1 - 23)\<rparr>)"
    by (auto simp: locate_def bruteForce_found)
  then show ?thesis by simp
next
  case True
  have none: "endOfCentralDirectory s = None"
  proof (rule ccontr)
    assume "endOfCentralDirectory s \<noteq> None"
    then have "locate s = Inr (s\<lparr>backwardIndex := Some (byteLength s - 23)\<rparr>)"
      by (auto simp: locate_def bruteForce_found)
    with assms True \<open>endOfCentralDirectory s \<noteq> None\<close> show False by auto
  qed
  obtain s' where hot: "probeHotSpots (hotSpots s) s = Inr s'"
    and brute: "bruteForce (s'\<lparr>backwardIndex := Some (byteLength s' - 23)\<rparr>) = Inr s1"
    using assms none by (auto simp: locate_def split: sum.splits)
  have "endOfCentralDirectory s' = None"
  proof (rule ccontr)
    assume "endOfCentralDirectory s' \<noteq> None"
    then have "bruteForce (s'\<lparr>backwardIndex := Some (byteLength s' - 23)\<rparr>)
               = Inr (s'\<lparr>backwardIndex := Some (byteLength s' - 23)\<rparr>)"
      by (simp add: bruteForce_found)
    with brute True \<open>endOfCentralDirectory s' \<noteq> None\<close> show False by auto
  qed
  with hot have s': "s' = s" by (rule probeHotSpots_none)
  from bruteForce_none [OF brute True] s'
  obtain k where s1: "s1 = s\<lparr>backwardIndex := k\<rparr>" by auto
  have "probeHotSpots (hotSpots s1) s1 = Inr s1"
    using hot s' by (simp add: s1 hotSpots_backwardIndex probeHotSpots_backwardIndex)
  moreover have "bruteForce (s1\<lparr>backwardIndex := Some (byteLength s1 - 23)\<rparr>) = Inr s1"
    using brute s' by (simp add: s1)
  ultimately have "locate s1 = Inr s1"
    using True by (simp add: locate_def)
  then show ?thesis by simp
qed

text \<open>
  C9, as stated, fails: the first \<^verbatim>\<open>read()\<close> on \<open>streamed_empty\<close> stops behind the
  streamed header (cursor 30) and the locator finds the central directory: one local
  entry, one central directory entry. The second \<^verbatim>\<open>read()\<close> does not throw; it
  goes on from cursor 30, where the data descriptor is, patches the entry, decodes the
  central directory entry once more and the end record, and ends at cursor 114 with two
  central directory entries.
\<close>

theorem second_read_appends:
  "map_sum fst (\<lambda>s. (index s, length (localFiles s), length (centralDirectories s),
                       map enrichedByDataDescriptor (localFiles s)))
     (read False (newZipReader streamed_empty)) = Inr (30, 1, 1, [False])
   \<and> map_sum fst (\<lambda>s. (index s, length (localFiles s), length (centralDirectories s),
                         map enrichedByDataDescriptor (localFiles s)))
       (read False (finalState (read False (newZipReader streamed_empty))))
     = Inr (114, 1, 2, [True])"
  by (simp add: finalState_def streamed_empty_def decoder_defs reader_defs)

text \<open>
  C9, amended. If the first \<^verbatim>\<open>read()\<close> returned with the cursor at a place where
  the scan cannot go on (fewer than five bytes left, or a signature that is none of the
  four known ones), a second \<^verbatim>\<open>read()\<close> returns and leaves the archive state as it
  was: nothing is appended. Otherwise the second call resumes the scan at the cursor.
\<close>

theorem second_read_at_halt:
  assumes "read False s0 = Inr s1"
    and "index s1 + 4 < byteLength s1
         \<longrightarrow> (\<exists>signature. getUint32 (dataView s1) (index s1) = Inr signature
                \<and> signature \<notin> {0x04034b50, 0x08074b50, 0x02014b50, 0x06054b50})"
  shows "\<exists>s2. read False s1 = Inr s2 \<and> archiveState s2 = archiveState s1"
proof -
  obtain sa where sa: "scan False s0 = Inr sa" "locate sa = Inr s1"
    using assms(1) by (auto simp: read_def split: sum.splits)
  have "scan False s1 = Inr s1"
    using assms(2) by (subst scan.simps) auto
  moreover obtain s2 where "locate s1 = Inr s2" "archiveState s2 = archiveState s1"
    using locate_again [OF sa(2)] by auto
  ultimately show ?thesis by (simp add: read_def)
qed

theorem second_read_at_halt_witness:
  "\<exists>s1. read False (newZipReader three_headers) = Inr s1
     \<and> index s1 + 4 < byteLength s1
     \<and> getUint32 (dataView s1) (index s1) = Inr 0
     \<and> length (localFiles s1) = 2
     \<and> (\<exists>s2. read False s1 = Inr s2 \<and> archiveState s2 = archiveState s1)"
proof -
  obtain s1 where s1: "read False (newZipReader three_headers) = Inr s1"
    "index s1 + 4 < byteLength s1" "getUint32 (dataView s1) (index s1) = Inr 0"
    "length (localFiles s1) = 2"
    by (simp add: three_headers_def decoder_defs reader_defs)
  show ?thesis
    using s1 second_read_at_halt [OF s1(1)] by auto
qed

section \<open>Data descriptors\<close>

text \<open>
  A data descriptor patches the last local entry only, so whatever the scan does, and
  whether it returns or throws, the local entries before the last one stay as they are
  and none is removed.
\<close>

lemma take_pred_of_take:
  assumes "take n xs = ys" and "length ys = n"
  shows "take (n - 1) xs = butlast ys"
proof -
  have "take (n - 1) xs = take (n - 1) (take n xs)" by (simp add: min_def)
  then show ?thesis using assms by (simp add: butlast_conv_take)
qed

lemma scan_keeps_earlier_entries:
  "take (length (localFiles s) - 1) (localFiles (finalState (scan u s))) = butlast (localFiles s)
   \<and> length (localFiles s) \<le> length (localFiles (finalState (scan u s)))"
proof (induction u s rule: scan.induct)
  case (1 u s)
  show ?case
  proof (cases "index s + 4 < byteLength s")
    case False
    then have "scan u s = Inr s" by (subst scan.simps) simp
    then show ?thesis by (simp add: finalState_def butlast_conv_take)
  next
    case True
    show ?thesis
    proof (cases "getUint32 (dataView s) (index s)")
      case (Inl e)
      then have "scan u s = Inl (e, s)" using True by (subst scan.simps) simp
      then show ?thesis by (simp add: finalState_def butlast_conv_take)
    next
      case (Inr sig)
      consider (lf) "sig = 0x04034b50" | (dd) "sig \<noteq> 0x04034b50" "sig = 0x08074b50"
        | (stop) "sig \<noteq> 0x04034b50" "sig \<noteq> 0x08074b50" "u"
        | (cd) "sig \<noteq> 0x04034b50" "sig \<noteq> 0x08074b50" "\<not> u" "sig = 0x02014b50"
        | (rest) "sig \<noteq> 0x04034b50" "sig \<noteq> 0x08074b50" "\<not> u" "sig \<noteq> 0x02014b50"
        by blast
      then show ?thesis
      proof cases
        case lf
        show ?thesis
        proof (cases "readLocalFile (dataView s) (index s)")
          case (Inl e)
          then have "scan u s = Inl (e, s)" using True Inr lf by (subst scan.simps) simp
          then show ?thesis by (simp add: finalState_def butlast_conv_take)
        next
          case rl: (Inr entry)
          define s1 where "s1 = s\<lparr>localFiles := localFiles s @ [entry],
             index := index s + (startsAt entry + int (compressedSize entry))\<rparr>"
          have goal: "take (length (localFiles s) - 1) (localFiles f) = butlast (localFiles s)
               \<and> length (localFiles s) \<le> length (localFiles f)"
            if "take (length (localFiles s)) (localFiles f) = localFiles s"
              and "length (localFiles s) < length (localFiles f)" for f :: ZipReader
            using that take_pred_of_take [of "length (localFiles s)" "localFiles f" "localFiles s"]
            by simp
          show ?thesis
          proof (cases "needsDataDescriptor entry")
            case False
            have eq: "scan u s = scan u s1"
              using True Inr lf rl False by (subst scan.simps) (simp add: s1_def Let_def)
            from "1.IH"(2) [OF True Inr lf rl s1_def False]
            show ?thesis unfolding eq by (intro goal) (simp_all add: s1_def)
          next
            case nd: True
            show ?thesis
            proof (cases u)
              case False
              have "scan u s = Inr s1"
                using True Inr lf rl nd False by (subst scan.simps) (simp add: s1_def Let_def)
              then show ?thesis by (intro goal) (simp_all add: s1_def finalState_def)
            next
              case ucd: True
              show ?thesis
              proof (cases "entryByFileName s1 (fileName entry) True")
                case None
                have "scan u s = Inl (TypeError, s1)"
                  using True Inr lf rl nd ucd None
                  by (subst scan.simps) (simp add: s1_def Let_def)
                then show ?thesis by (intro goal) (simp_all add: s1_def finalState_def)
              next
                case (Some c)
                have eq: "scan u s = scan u (s1\<lparr>index := index s1
                           + int (numOf (getProp (entryProps c) ''compressedSize''))\<rparr>)"
                  using True Inr lf rl nd ucd Some
                  by (subst scan.simps) (simp add: s1_def Let_def)
                from "1.IH"(1) [OF True Inr lf rl s1_def nd ucd Some]
                show ?thesis unfolding eq by (intro goal) (simp_all add: s1_def)
              qed
            qed
          qed
        qed
      next
        case dd
        show ?thesis
        proof (cases "readDataDescriptor (dataView s) (index s)")
          case (Inl e)
          then have "scan u s = Inl (e, s)" using True Inr dd by (subst scan.simps) simp
          then show ?thesis by (simp add: finalState_def butlast_conv_take)
        next
          case rd: (Inr d)
          show ?thesis
          proof (cases "localFiles s = []")
            case True': True
            then have "scan u s = Inl (TypeError, s)"
              using True Inr dd rd by (subst scan.simps) simp
            then show ?thesis by (simp add: finalState_def butlast_conv_take)
          next
            case False
            have eq: "scan u s = scan u (s\<lparr>localFiles :=
                 butlast (localFiles s) @ [patchTarget (last (localFiles s)) d],
                 index := index s + int (totalLength d)\<rparr>)"
              using True Inr dd rd False by (subst scan.simps) simp
            from "1.IH"(3) [OF True Inr dd rd False] False
            show ?thesis unfolding eq by simp
          qed
        qed
      next
        case stop
        then have "scan u s = Inr s" using True Inr by (subst scan.simps) simp
        then show ?thesis by (simp add: finalState_def butlast_conv_take)
      next
        case cd
        show ?thesis
        proof (cases "readCentralDirectory (dataView s) (index s)")
          case (Inl e)
          then have "scan u s = Inl (e, s)" using True Inr cd by (subst scan.simps) simp
          then show ?thesis by (simp add: finalState_def butlast_conv_take)
        next
          case rc: (Inr c)
          have eq: "scan u s = scan u (s\<lparr>centralDirectories := centralDirectories s @ [c],
                 index := index s + int (totalLength c)\<rparr>)"
            using True Inr cd rc by (subst scan.simps) simp
          from "1.IH"(4) [OF True Inr cd rc]
          show ?thesis unfolding eq by simp
        qed
      next
        case rest
        have "localFiles (finalState (scan u s)) = localFiles s"
          using True Inr rest
          by (subst scan.simps) (simp add: finalState_def split: sum.splits)
        then show ?thesis by (simp add: butlast_conv_take)
      qed
    qed
  qed
qed

text \<open>
  In central directory mode the scan stops at everything that is neither a local file
  header nor a data descriptor, so unless a data descriptor is at the cursor it keeps
  all the local entries it starts with.
\<close>

lemma readDataDescriptor_length:
  "readDataDescriptor buf off = Inr d \<Longrightarrow> totalLength d = 16"
  by (auto simp: readDataDescriptor_def readStruct_def dataDescriptorFields_def readNumber_def
      split: sum.splits)

lemma patchTarget_values:
  "crc (patchTarget e d) = crc d"
  "compressedSize (patchTarget e d) = compressedSize d"
  "uncompressedSize (patchTarget e d) = uncompressedSize d"
  "enrichedByDataDescriptor (patchTarget e d)"
  by (simp_all add: patchTarget_def getProp_def setProp_def update_conv' numOf_def)

lemma rescan_keeps_entries:
  assumes "\<not> (index s + 4 < byteLength s \<and> getUint32 (dataView s) (index s) = Inr 0x08074b50)"
  shows "take (length (localFiles s)) (localFiles (finalState (scan True s))) = localFiles s"
proof (cases "index s + 4 < byteLength s")
  case False
  then have "scan True s = Inr s" by (subst scan.simps) simp
  then show ?thesis by (simp add: finalState_def)
next
  case True
  show ?thesis
  proof (cases "getUint32 (dataView s) (index s)")
    case (Inl e)
    then have "scan True s = Inl (e, s)" using True by (subst scan.simps) simp
    then show ?thesis by (simp add: finalState_def)
  next
    case (Inr sig)
    with True assms have nodd: "sig \<noteq> 0x08074b50" by simp
    show ?thesis
    proof (cases "sig = 0x04034b50")
      case False
      then have "scan True s = Inr s" using True Inr nodd by (subst scan.simps) simp
      then show ?thesis by (simp add: finalState_def)
    next
      case lf: True
      show ?thesis
      proof (cases "readLocalFile (dataView s) (index s)")
        case (Inl e)
        then have "scan True s = Inl (e, s)" using True Inr lf by (subst scan.simps) simp
        then show ?thesis by (simp add: finalState_def)
      next
        case rl: (Inr entry)
        define s1 where "s1 = s\<lparr>localFiles := localFiles s @ [entry],
           index := index s + (startsAt entry + int (compressedSize entry))\<rparr>"
        have keep: "take (length (localFiles s)) (localFiles (finalState (scan True t)))
                    = localFiles s"
          if "localFiles t = localFiles s @ [entry]" for t
          using scan_keeps_earlier_entries [of t True] that by simp
        show ?thesis
        proof (cases "needsDataDescriptor entry")
          case False
          have "scan True s = scan True s1"
            using True Inr lf rl False by (subst scan.simps) (simp add: s1_def Let_def)
          then show ?thesis using keep [of s1] by (simp add: s1_def)
        next
          case nd: True
          show ?thesis
          proof (cases "entryByFileName s1 (fileName entry) True")
            case None
            have "scan True s = Inl (TypeError, s1)"
              using True Inr lf rl nd None by (subst scan.simps) (simp add: s1_def Let_def)
            then show ?thesis by (simp add: s1_def finalState_def)
          next
            case (Some c)
            have "scan True s = scan True (s1\<lparr>index := index s1
                       + int (numOf (getProp (entryProps c) ''compressedSize''))\<rparr>)"
              using True Inr lf rl nd Some by (subst scan.simps) (simp add: s1_def Let_def)
            then show ?thesis
              using keep [of "s1\<lparr>index := index s1
                       + int (numOf (getProp (entryProps c) ''compressedSize''))\<rparr>"]
              by (simp add: s1_def)
          qed
        qed
      qed
    qed
  qed
qed

text \<open>
  A complete archive of one streamed entry \<open>a\<close> with three bytes of data: local file
  header (bit 3 set, sizes and CRC 0), the data, the data descriptor (CRC
  \<open>0x04030201\<close>, sizes 3), the central directory entry, the end of central directory
  record. \<open>streamed_read\<close> is the reader after \<^verbatim>\<open>read()\<close>.
\<close>

definition streamed_file :: "byte list" where
  "streamed_file =
     [0x50, 0x4b, 0x03, 0x04, 20, 0, 8, 0, 0, 0, 0, 0, 0, 0, 0, 0, 0, 0, 0, 0, 0, 0, 0, 0,
      0, 0, 1, 0, 0, 0, 0x61]
     @ [0x68, 0x69, 0x21]
     @ [0x50, 0x4b, 0x07, 0x08, 1, 2, 3, 4, 3, 0, 0, 0, 3, 0, 0, 0]
     @ [0x50, 0x4b, 0x01, 0x02, 20, 0, 20, 0, 8, 0, 0, 0, 0, 0, 0, 0, 1, 2, 3, 4, 3, 0, 0, 0,
        3, 0, 0, 0, 1, 0, 0, 0, 0, 0, 0, 0, 0, 0, 0, 0, 0, 0, 0, 0, 0, 0, 0x61]
     @ [0x50, 0x4b, 0x05, 0x06, 0, 0, 0, 0, 1, 0, 1, 0, 47, 0, 0, 0, 50, 0, 0, 0, 0, 0]"

definition streamed_read :: ZipReader where
  "streamed_read = finalState (read False (newZipReader streamed_file))"

text \<open>
  C6, as stated, fails: after \<^verbatim>\<open>read()\<close> on \<open>streamed_file\<close> the entry (bit 3 set,
  data from 31 to 34, where the data descriptor begins) still has CRC and sizes 0 and is
  not marked, although the descriptor holds \<open>0x04030201\<close>, 3 and 3. The plain scan
  stops at an entry whose bit 3 is set and never reaches the descriptor.
\<close>

theorem plain_read_leaves_placeholders:
  "map_sum fst
     (\<lambda>s. map (\<lambda>e. (needsDataDescriptor e, startsAt e, crc e, compressedSize e,
                       uncompressedSize e, enrichedByDataDescriptor e)) (localFiles s))
     (read False (newZipReader streamed_file))
   = Inr [(True, 31, 0, 0, 0, False)]
   \<and> map_sum id (\<lambda>d. (crc d, compressedSize d, uncompressedSize d))
       (readDataDescriptor streamed_file 34)
     = Inr (0x04030201, 3, 3)"
  by (simp add: streamed_file_def decoder_defs reader_defs readChars_unfold)

text \<open>
  C6, amended. For a buffer that begins with a local file header whose bit 3 is set,
  \<^verbatim>\<open>read()\<close> ends, returning or throwing, with that entry alone and as the header
  declares it. The descriptor is applied by \<^verbatim>\<open>read(true)\<close>: if the central
  directory has an entry of the same name, the cursor after the header, advanced by the
  header's and by that entry's compressed size, is at a data descriptor, and no second
  descriptor follows it directly, then \<^verbatim>\<open>read(true)\<close> ends, returning or throwing,
  with a first entry that has the descriptor's CRC and sizes and is marked as enriched.
\<close>

theorem descriptor_applied_by_rescan:
  assumes "4 < length buf" and "getUint32 buf 0 = Inr 0x04034b50"
    and "readLocalFile buf 0 = Inr e" and "needsDataDescriptor e"
  shows "localFiles (finalState (read False (newZipReader buf))) = [e]
    \<and> (dataView t = buf
        \<and> entryByFileName t (fileName e) True = Some c
        \<and> p = startsAt e + int (compressedSize e)
                + int (numOf (getProp (entryProps c) ''compressedSize''))
        \<and> p + 4 < int (length buf)
        \<and> getUint32 buf p = Inr 0x08074b50
        \<and> readDataDescriptor buf p = Inr d
        \<and> getUint32 buf (p + 16) \<noteq> Inr 0x08074b50
       \<longrightarrow> (\<exists>e' rest. localFiles (finalState (read True t)) = e' # rest
              \<and> crc e' = crc d \<and> compressedSize e' = compressedSize d
              \<and> uncompressedSize e' = uncompressedSize d
              \<and> enrichedByDataDescriptor e'))"
proof (intro conjI impI)
  let ?s1 = "(newZipReader buf)\<lparr>localFiles := [e],
               index := startsAt e + int (compressedSize e)\<rparr>"
  have "scan False (newZipReader buf) = Inr ?s1"
    using assms by (subst scan.simps) (simp add: newZipReader_def byteLength_def Let_def)
  then have "read False (newZipReader buf) = locate ?s1"
    by (simp add: read_def)
  then show "localFiles (finalState (read False (newZipReader buf))) = [e]"
    using locate_frame [of ?s1] by simp
next
  assume h: "dataView t = buf
        \<and> entryByFileName t (fileName e) True = Some c
        \<and> p = startsAt e + int (compressedSize e)
                + int (numOf (getProp (entryProps c) ''compressedSize''))
        \<and> p + 4 < int (length buf)
        \<and> getUint32 buf p = Inr 0x08074b50
        \<and> readDataDescriptor buf p = Inr d
        \<and> getUint32 buf (p + 16) \<noteq> Inr 0x08074b50"
  then have dv: "dataView t = buf"
    and c: "entryByFileName t (fileName e) True = Some c"
    and p: "p = startsAt e + int (compressedSize e)
                + int (numOf (getProp (entryProps c) ''compressedSize''))"
    and inside: "p + 4 < int (length buf)"
    and sig: "getUint32 buf p = Inr 0x08074b50"
    and d: "readDataDescriptor buf p = Inr d"
    and after: "getUint32 buf (p + 16) \<noteq> Inr 0x08074b50"
    by blast+
  let ?t0 = "t\<lparr>index := 0, localFiles := []\<rparr>"
  let ?t1 = "t\<lparr>localFiles := [e], index := p\<rparr>"
  let ?t2 = "t\<lparr>localFiles := [patchTarget e d], index := p + 16\<rparr>"
  have lookup: "entryByFileName
                  (?t0\<lparr>localFiles := localFiles ?t0 @ [e],
                       index := index ?t0 + (startsAt e + int (compressedSize e))\<rparr>)
                  (fileName e) True = Some c"
    using c by (simp add: entryByFileName_def)
  have one: "scan True ?t0 = scan True ?t1"
    using assms dv lookup
    by (subst scan.simps) (simp add: byteLength_def Let_def p add.assoc)
  have two: "scan True ?t1 = scan True ?t2"
    using dv inside sig d readDataDescriptor_length [OF d]
    by (subst scan.simps) (simp add: byteLength_def)
  have "take (length (localFiles ?t2)) (localFiles (finalState (scan True ?t2)))
        = localFiles ?t2"
    using dv after by (intro rescan_keeps_entries) (simp add: byteLength_def)
  moreover have "read True t = scan True ?t0"
    by (simp add: read_def split: sum.splits)
  ultimately have "take 1 (localFiles (finalState (read True t))) = [patchTarget e d]"
    using one two by simp
  then obtain rest where "localFiles (finalState (read True t)) = patchTarget e d # rest"
    by (cases "localFiles (finalState (read True t))") auto
  then show "\<exists>e' rest. localFiles (finalState (read True t)) = e' # rest
              \<and> crc e' = crc d \<and> compressedSize e' = compressedSize d
              \<and> uncompressedSize e' = uncompressedSize d
              \<and> enrichedByDataDescriptor e'"
    using patchTarget_values [of e d] by blast
qed

theorem descriptor_applied_by_rescan_witness:
  "\<exists>e. readLocalFile streamed_file 0 = Inr e \<and> needsDataDescriptor e
     \<and> localFiles (finalState (read False (newZipReader streamed_file))) = [e]
     \<and> (\<exists>e' rest. localFiles (finalState (read True streamed_read)) = e' # rest
          \<and> crc e' = 0x04030201 \<and> compressedSize e' = 3 \<and> uncompressedSize e' = 3
          \<and> enrichedByDataDescriptor e')"
proof -
  have len: "4 < length streamed_file" and sig: "getUint32 streamed_file 0 = Inr 0x04034b50"
    by (simp_all add: streamed_file_def getUint32_def)
  obtain e c where e: "readLocalFile streamed_file 0 = Inr e" "needsDataDescriptor e"
    and c: "entryByFileName streamed_read (fileName e) True = Some c"
    and p: "34 = startsAt e + int (compressedSize e)
                 + int (numOf (getProp (entryProps c) ''compressedSize''))"
    by (simp add: streamed_read_def finalState_def streamed_file_def decoder_defs reader_defs
        readChars_unfold)
  have dv: "dataView streamed_read = streamed_file"
    by (simp add: streamed_read_def finalState_def streamed_file_def decoder_defs reader_defs
        readChars_unfold)
  obtain d where d: "readDataDescriptor streamed_file 34 = Inr d" "crc d = 0x04030201"
    "compressedSize d = 3" "uncompressedSize d = 3"
    by (simp add: streamed_file_def decoder_defs)
  have inside: "34 + 4 < int (length streamed_file)"
    and dsig: "getUint32 streamed_file 34 = Inr 0x08074b50"
    and after: "getUint32 streamed_file (34 + 16) \<noteq> Inr 0x08074b50"
    by (simp_all add: streamed_file_def getUint32_def)
  show ?thesis
    using descriptor_applied_by_rescan [OF len sig e, of streamed_read c 34 d]
      e dv c p inside dsig d after
    by auto
qed

section \<open>The plain scan and the central directory scan\<close>

text \<open>
  As long as no entry has bit 3 set, the two modes of the scan take the same steps at
  local file headers and data descriptors. At anything else the scan in central
  directory mode stops, while the plain scan goes on from the very same cursor and
  local entries.
\<close>

text \<open>
  One iteration of the loop: the state at the head of the next iteration when the loop
  goes round again, nothing when it ends, breaks or throws. \<open>scanHead n\<close> is the
  state at the head of the loop after \<open>n\<close> iterations.
\<close>

definition scanIteration :: "bool \<Rightarrow> ZipReader \<Rightarrow> ZipReader option" where
  "scanIteration useCentralDirectory s =
     (if index s + 4 < byteLength s then
        (case getUint32 (dataView s) (index s) of
           Inl e \<Rightarrow> None
         | Inr signature \<Rightarrow>
             if signature = 0x04034b50 then
               (case readLocalFile (dataView s) (index s) of
                  Inl e \<Rightarrow> None
                | Inr entry \<Rightarrow>
                    let s1 = s\<lparr>localFiles := localFiles s @ [entry],
                               index := index s + (startsAt entry + int (compressedSize entry))\<rparr>
                    in if needsDataDescriptor entry then
                         if useCentralDirectory then
                           (case entryByFileName s1 (fileName entry) True of
                              None \<Rightarrow> None
                            | Some c \<Rightarrow>
                                Some (s1\<lparr>index := index s1
                                         + int (numOf (getProp (entryProps c) ''compressedSize''))\<rparr>))
                         else None
                       else Some s1)
             else if signature = 0x08074b50 then
               (case readDataDescriptor (dataView s) (index s) of
                  Inl e \<Rightarrow> None
                | Inr entry \<Rightarrow>
                    if localFiles s = [] then None
                    else Some (s\<lparr>localFiles :=
                                 butlast (localFiles s) @ [patchTarget (last (localFiles s)) entry],
                               index := index s + int (totalLength entry)\<rparr>))
             else if useCentralDirectory then None
             else if signature = 0x02014b50 then
               (case readCentralDirectory (dataView s) (index s) of
                  Inl e \<Rightarrow> None
                | Inr entry \<Rightarrow>
                    Some (s\<lparr>centralDirectories := centralDirectories s @ [entry],
                          index := index s + int (totalLength entry)\<rparr>))
             else None)
      else None)"

fun scanHead :: "nat \<Rightarrow> bool \<Rightarrow> ZipReader \<Rightarrow> ZipReader option" where
  "scanHead 0 useCentralDirectory s = Some s"
| "scanHead (Suc n) useCentralDirectory s =
     (case scanIteration useCentralDirectory s of
        None \<Rightarrow> None
      | Some s' \<Rightarrow> scanHead n useCentralDirectory s')"

text \<open>
  The scan is at a local record when the loop goes on and the signature at the cursor
  is that of a local file header or of a data descriptor.
\<close>

definition atLocalRecord :: "ZipReader \<Rightarrow> bool" where
  "atLocalRecord s =
     (index s + 4 < byteLength s
      \<and> (getUint32 (dataView s) (index s) = Inr 0x04034b50
         \<or> getUint32 (dataView s) (index s) = Inr 0x08074b50))"

lemma scanIteration_scan:
  "scanIteration u s = Some s' \<Longrightarrow> scan u s = scan u s'"
  by (subst scan.simps)
    (auto simp: scanIteration_def Let_def split: if_splits sum.splits option.splits)

lemma scanHead_step:
  assumes "scanIteration False a = Some a1" and "atLocalRecord a"
    and "scanHead n False a1 = Some x"
    and "\<forall>k<n. \<exists>y. scanHead k False a1 = Some y \<and> atLocalRecord y"
  shows "scanHead (Suc n) False a = Some x
         \<and> (\<forall>k<Suc n. \<exists>y. scanHead k False a = Some y \<and> atLocalRecord y)"
proof (intro conjI allI impI)
  show "scanHead (Suc n) False a = Some x" using assms by simp
next
  fix k assume "k < Suc n"
  then show "\<exists>y. scanHead k False a = Some y \<and> atLocalRecord y"
    using assms by (cases k) auto
qed

lemma scan_modes_agree:
  assumes "\<not> u" and "scan u a = Inr s1"
    and "\<forall>e \<in> set (localFiles s1). \<not> needsDataDescriptor e"
    and "index b = index a" and "localFiles b = localFiles a" and "dataView b = dataView a"
  shows "\<exists>n x s2. scanHead n False a = Some x
           \<and> (\<forall>k<n. \<exists>y. scanHead k False a = Some y \<and> atLocalRecord y)
           \<and> \<not> atLocalRecord x
           \<and> scan True b = Inr s2
           \<and> localFiles s2 = localFiles x \<and> index s2 = index x
           \<and> scan False x = Inr s1"
  using assms
proof (induction u a arbitrary: b rule: scan.induct)
  case (1 u a)
  have plain: "scan False a = Inr s1" using "1.prems" by simp
  have len: "byteLength b = byteLength a" using "1.prems" by (simp add: byteLength_def)
  have stop: ?case if "scan True b = Inr b" and "\<not> atLocalRecord a"
  proof -
    have "scanHead 0 False a = Some a
           \<and> (\<forall>k<0. \<exists>y. scanHead k False a = Some y \<and> atLocalRecord y)
           \<and> \<not> atLocalRecord a
           \<and> scan True b = Inr b
           \<and> localFiles b = localFiles a \<and> index b = index a
           \<and> scan False a = Inr s1"
      using that plain "1.prems" by simp
    then show ?thesis by blast
  qed
  have step: ?case
    if it: "scanIteration False a = Some a1" and loc: "atLocalRecord a"
      and eb: "scan True b = scan True b1"
      and ih: "\<exists>n x s2. scanHead n False a1 = Some x
           \<and> (\<forall>k<n. \<exists>y. scanHead k False a1 = Some y \<and> atLocalRecord y)
           \<and> \<not> atLocalRecord x
           \<and> scan True b1 = Inr s2
           \<and> localFiles s2 = localFiles x \<and> index s2 = index x
           \<and> scan False x = Inr s1" for a1 b1
  proof -
    from ih obtain n x s2 where h: "scanHead n False a1 = Some x"
      "\<forall>k<n. \<exists>y. scanHead k False a1 = Some y \<and> atLocalRecord y"
      "\<not> atLocalRecord x" "scan True b1 = Inr s2"
      "localFiles s2 = localFiles x" "index s2 = index x" "scan False x = Inr s1"
      by blast
    from scanHead_step [OF it loc h(1) h(2)] h eb
    have "scanHead (Suc n) False a = Some x
           \<and> (\<forall>k<Suc n. \<exists>y. scanHead k False a = Some y \<and> atLocalRecord y)
           \<and> \<not> atLocalRecord x
           \<and> scan True b = Inr s2
           \<and> localFiles s2 = localFiles x \<and> index s2 = index x
           \<and> scan False x = Inr s1"
      by simp
    then show ?thesis by blast
  qed
  show ?case
  proof (cases "index a + 4 < byteLength a")
    case False
    then have "scan True b = Inr b"
      using "1.prems" len by (subst scan.simps) simp
    then show ?thesis using False by (intro stop) (simp_all add: atLocalRecord_def)
  next
    case True
    show ?thesis
    proof (cases "getUint32 (dataView a) (index a)")
      case (Inl e)
      then have "scan u a = Inl (e, a)" using True by (subst scan.simps) simp
      with "1.prems" show ?thesis by simp
    next
      case (Inr sig)
      consider (lf) "sig = 0x04034b50" | (dd) "sig \<noteq> 0x04034b50" "sig = 0x08074b50"
        | (rest) "sig \<noteq> 0x04034b50" "sig \<noteq> 0x08074b50"
        by blast
      then show ?thesis
      proof cases
        case lf
        show ?thesis
        proof (cases "readLocalFile (dataView a) (index a)")
          case (Inl e)
          then have "scan u a = Inl (e, a)" using True Inr lf by (subst scan.simps) simp
          with "1.prems" show ?thesis by simp
        next
          case rl: (Inr entry)
          define a1 where "a1 = a\<lparr>localFiles := localFiles a @ [entry],
             index := index a + (startsAt entry + int (compressedSize entry))\<rparr>"
          define b1 where "b1 = b\<lparr>localFiles := localFiles b @ [entry],
             index := index b + (startsAt entry + int (compressedSize entry))\<rparr>"
          show ?thesis
          proof (cases "needsDataDescriptor entry")
            case nd: True
            have "scan u a = Inr a1"
              using True Inr lf rl nd "1.prems"(1)
              by (subst scan.simps) (simp add: a1_def Let_def)
            with "1.prems" have "s1 = a1" by simp
            with "1.prems" nd show ?thesis by (simp add: a1_def)
          next
            case False
            have ea: "scan u a = scan u a1"
              using True Inr lf rl False by (subst scan.simps) (simp add: a1_def Let_def)
            have eb: "scan True b = scan True b1"
              using True Inr lf rl False "1.prems" len
              by (subst scan.simps) (simp add: b1_def Let_def)
            have it: "scanIteration False a = Some a1"
              using True Inr lf rl False by (simp add: scanIteration_def a1_def Let_def)
            have loc: "atLocalRecord a"
              using True Inr lf by (simp add: atLocalRecord_def)
            have "\<exists>n x s2. scanHead n False a1 = Some x
                   \<and> (\<forall>k<n. \<exists>y. scanHead k False a1 = Some y \<and> atLocalRecord y)
                   \<and> \<not> atLocalRecord x
                   \<and> scan True b1 = Inr s2
                   \<and> localFiles s2 = localFiles x \<and> index s2 = index x
                   \<and> scan False x = Inr s1"
              using "1.IH"(2) [OF True Inr lf rl a1_def False, of b1] "1.prems" ea
              by (simp add: a1_def b1_def)
            then show ?thesis by (rule step [OF it loc eb])
          qed
        qed
      next
        case dd
        show ?thesis
        proof (cases "readDataDescriptor (dataView a) (index a)")
          case (Inl e)
          then have "scan u a = Inl (e, a)" using True Inr dd by (subst scan.simps) simp
          with "1.prems" show ?thesis by simp
        next
          case rd: (Inr d)
          show ?thesis
          proof (cases "localFiles a = []")
            case True': True
            then have "scan u a = Inl (TypeError, a)"
              using True Inr dd rd by (subst scan.simps) simp
            with "1.prems" show ?thesis by simp
          next
            case False
            define a1 where "a1 = a\<lparr>localFiles :=
                 butlast (localFiles a) @ [patchTarget (last (localFiles a)) d],
                 index := index a + int (totalLength d)\<rparr>"
            define b1 where "b1 = b\<lparr>localFiles :=
                 butlast (localFiles b) @ [patchTarget (last (localFiles b)) d],
                 index := index b + int (totalLength d)\<rparr>"
            have ea: "scan u a = scan u a1"
              using True Inr dd rd False by (subst scan.simps) (simp add: a1_def)
            have eb: "scan True b = scan True b1"
              using True Inr dd rd False "1.prems" len
              by (subst scan.simps) (simp add: b1_def)
            have it: "scanIteration False a = Some a1"
              using True Inr dd rd False by (simp add: scanIteration_def a1_def)
            have loc: "atLocalRecord a"
              using True Inr dd by (simp add: atLocalRecord_def)
            have "\<exists>n x s2. scanHead n False a1 = Some x
                   \<and> (\<forall>k<n. \<exists>y. scanHead k False a1 = Some y \<and> atLocalRecord y)
                   \<and> \<not> atLocalRecord x
                   \<and> scan True b1 = Inr s2
                   \<and> localFiles s2 = localFiles x \<and> index s2 = index x
                   \<and> scan False x = Inr s1"
              using "1.IH"(3) [OF True Inr dd rd False, of b1] "1.prems" ea
              by (simp add: a1_def b1_def)
            then show ?thesis by (rule step [OF it loc eb])
          qed
        qed
      next
        case rest
        then have "scan True b = Inr b"
          using True Inr "1.prems" len by (subst scan.simps) simp
        then show ?thesis using Inr rest by (intro stop) (simp_all add: atLocalRecord_def)
      qed
    qed
  qed
qed

lemma plain_scan_after_local_records:
  assumes "\<not> u" and "scan u x = Inr s1"
    and "\<forall>k y. scanHead k False x = Some y \<longrightarrow> \<not> atLocalRecord y"
  shows "localFiles s1 = localFiles x"
  using assms
proof (induction u x rule: scan.induct)
  case (1 u x)
  have here: "\<not> atLocalRecord x"
    using "1.prems"(3) [rule_format, of 0 x] by simp
  show ?case
  proof (cases "scanIteration False x")
    case None
    then show ?thesis
      using "1.prems"(1,2) here
      by (subst (asm) scan.simps)
        (auto simp: scanIteration_def atLocalRecord_def Let_def
          split: if_splits sum.splits option.splits)
  next
    case (Some x1)
    have later: "\<forall>k y. scanHead k False x1 = Some y \<longrightarrow> \<not> atLocalRecord y"
    proof (intro allI impI)
      fix k y assume "scanHead k False x1 = Some y"
      then have "scanHead (Suc k) False x = Some y" using Some by simp
      then show "\<not> atLocalRecord y" using "1.prems"(3) by blast
    qed
    obtain sig c where f: "index x + 4 < byteLength x"
      "getUint32 (dataView x) (index x) = Inr sig" "sig \<noteq> 0x04034b50" "sig \<noteq> 0x08074b50"
      "sig = 0x02014b50" "readCentralDirectory (dataView x) (index x) = Inr c"
      "x1 = x\<lparr>centralDirectories := centralDirectories x @ [c],
               index := index x + int (totalLength c)\<rparr>"
      using Some here
      by (auto simp: scanIteration_def atLocalRecord_def Let_def
          split: if_splits sum.splits option.splits)
    have "scan u x = scan u x1"
      using scanIteration_scan [OF Some] "1.prems"(1) by simp
    then have "localFiles s1 = localFiles x1"
      using "1.IH"(4) [OF f(1-4) "1.prems"(1) f(5,6)] "1.prems" later f(7) by simp
    then show ?thesis using f(7) by simp
  qed
qed

text \<open>
  A local file header, a central directory entry and a second local file header, all
  without name, data or bit 3.
\<close>

definition header_after_directory :: "byte list" where
  "header_after_directory =
     [0x50, 0x4b, 0x03, 0x04, 20, 0, 0, 0, 0, 0, 0, 0, 0, 0, 0, 0, 0, 0, 0, 0, 0, 0, 0, 0,
      0, 0, 0, 0, 0, 0]
     @ [0x50, 0x4b, 0x01, 0x02, 20, 0, 20, 0, 0, 0, 0, 0, 0, 0, 0, 0, 0, 0, 0, 0, 0, 0, 0, 0,
        0, 0, 0, 0, 0, 0, 0, 0, 0, 0, 0, 0, 0, 0, 0, 0, 0, 0, 0, 0, 0, 0]
     @ [0x50, 0x4b, 0x03, 0x04, 20, 0, 0, 0, 0, 0, 0, 0, 0, 0, 0, 0, 0, 0, 0, 0, 0, 0, 0, 0,
        0, 0, 0, 0, 0, 0]"

text \<open>
  C2, as stated, fails: on \<open>header_after_directory\<close> no header has bit 3 set; the plain
  scan decodes both local file headers (and the central directory entry between them),
  the scan in central directory mode that follows stops at the central directory entry
  and has the first local entry only.
\<close>

theorem rescan_loses_entry:
  "map_sum fst (\<lambda>s. (map needsDataDescriptor (localFiles s), map startsAt (localFiles s),
                       length (centralDirectories s)))
     (read False (newZipReader header_after_directory)) = Inr ([False, False], [30, 106], 1)
   \<and> map_sum fst (\<lambda>s. (map needsDataDescriptor (localFiles s), map startsAt (localFiles s),
                         length (centralDirectories s)))
       (read True (finalState (read False (newZipReader header_after_directory))))
     = Inr ([False], [30], 1)"
  by (simp add: finalState_def header_after_directory_def decoder_defs reader_defs)

text \<open>
  C2, amended. If the plain scan of a buffer returns and none of its local entries has
  bit 3 set, then \<^verbatim>\<open>read(true)\<close>, on any reader of that buffer, returns with exactly
  the cursor and the local entries that the plain scan has at the head of the first
  iteration that is not at a local record (every earlier iteration is at one); the
  plain scan goes on from there to its result, and if it is never at a local record
  again the two have the same local entries.
\<close>

theorem rescan_recovers_local_phase:
  assumes "scan False (newZipReader buf) = Inr s1"
    and "\<forall>e \<in> set (localFiles s1). \<not> needsDataDescriptor e"
    and "dataView t = buf"
  shows "\<exists>n x s2. scanHead n False (newZipReader buf) = Some x
           \<and> (\<forall>k<n. \<exists>y. scanHead k False (newZipReader buf) = Some y \<and> atLocalRecord y)
           \<and> \<not> atLocalRecord x
           \<and> read True t = Inr s2
           \<and> localFiles s2 = localFiles x \<and> index s2 = index x
           \<and> scan False x = Inr s1
           \<and> length (localFiles s2) \<le> length (localFiles s1)
           \<and> butlast (localFiles s2) = take (length (localFiles s2) - 1) (localFiles s1)
           \<and> ((\<forall>k y. scanHead k False x = Some y \<longrightarrow> \<not> atLocalRecord y)
                \<longrightarrow> localFiles s2 = localFiles s1)"
proof -
  have rd: "read True t = scan True (t\<lparr>index := 0, localFiles := []\<rparr>)"
    by (simp add: read_def split: sum.splits)
  obtain n x s2 where h: "scanHead n False (newZipReader buf) = Some x"
    "\<forall>k<n. \<exists>y. scanHead k False (newZipReader buf) = Some y \<and> atLocalRecord y"
    "\<not> atLocalRecord x" "scan True (t\<lparr>index := 0, localFiles := []\<rparr>) = Inr s2"
    "localFiles s2 = localFiles x" "index s2 = index x" "scan False x = Inr s1"
    using scan_modes_agree [of False "newZipReader buf" s1 "t\<lparr>index := 0, localFiles := []\<rparr>"]
      assms
    by (auto simp: newZipReader_def)
  have "(\<forall>k y. scanHead k False x = Some y \<longrightarrow> \<not> atLocalRecord y)
          \<longrightarrow> localFiles s2 = localFiles s1"
    using plain_scan_after_local_records [of False x s1] h(5,7) by simp
  moreover have "length (localFiles s2) \<le> length (localFiles s1)"
    "butlast (localFiles s2) = take (length (localFiles s2) - 1) (localFiles s1)"
    using scan_keeps_earlier_entries [of x False] h(5,7) by (simp_all add: finalState_def)
  ultimately show ?thesis
    using h rd by (intro exI [of _ n] exI [of _ x] exI [of _ s2]) simp
qed

theorem rescan_recovers_local_phase_witness:
  "\<exists>s1 s2. scan False (newZipReader method_mismatch) = Inr s1
     \<and> (\<forall>e \<in> set (localFiles s1). \<not> needsDataDescriptor e)
     \<and> read True (finalState (read False (newZipReader method_mismatch))) = Inr s2
     \<and> localFiles s2 = localFiles s1 \<and> length (localFiles s2) = 1 \<and> index s2 = 31"
proof -
  let ?a = "newZipReader method_mismatch"
  obtain s1 where s1: "scan False ?a = Inr s1"
    "\<forall>e \<in> set (localFiles s1). \<not> needsDataDescriptor e" "length (localFiles s1) = 1"
    by (simp add: method_mismatch_def decoder_defs reader_defs)
  have dv: "dataView (finalState (read False ?a)) = method_mismatch"
    by (simp add: finalState_def method_mismatch_def decoder_defs reader_defs)
  have h0: "atLocalRecord ?a"
    by (simp add: atLocalRecord_def method_mismatch_def byteLength_def newZipReader_def
        getUint32_def)
  obtain x1 x2 where heads: "scanIteration False ?a = Some x1" "\<not> atLocalRecord x1"
    "index x1 = 31" "scanIteration False x1 = Some x2" "\<not> atLocalRecord x2"
    "scanIteration False x2 = None"
    by (simp add: scanIteration_def atLocalRecord_def method_mismatch_def decoder_defs
        byteLength_def newZipReader_def Let_def)
  from rescan_recovers_local_phase [OF s1(1,2) dv]
  obtain n x s2 where h: "scanHead n False ?a = Some x"
    "\<forall>k<n. \<exists>y. scanHead k False ?a = Some y \<and> atLocalRecord y"
    "\<not> atLocalRecord x"
    "read True (finalState (read False ?a)) = Inr s2"
    "localFiles s2 = localFiles x" "index s2 = index x"
    "(\<forall>k y. scanHead k False x = Some y \<longrightarrow> \<not> atLocalRecord y)
       \<longrightarrow> localFiles s2 = localFiles s1"
    by blast
  have n: "n = Suc 0"
  proof (cases n)
    case 0
    with h(1,3) h0 show ?thesis by simp
  next
    case (Suc m)
    show ?thesis
    proof (cases m)
      case 0
      with Suc show ?thesis by simp
    next
      case (Suc j)
      with \<open>n = Suc m\<close> have "Suc 0 < n" by simp
      with h(2) have "\<exists>y. scanHead (Suc 0) False ?a = Some y \<and> atLocalRecord y"
        by blast
      with heads show ?thesis by simp
    qed
  qed
  with h(1) heads have x: "x = x1" by simp
  have "\<not> atLocalRecord y" if "scanHead k False x1 = Some y" for k y
  proof (cases k)
    case 0
    with that heads show ?thesis by simp
  next
    case (Suc m)
    with that heads show ?thesis by (cases m) auto
  qed
  with h(7) x have "localFiles s2 = localFiles s1" by blast
  with s1 h(4,6) x heads show ?thesis by auto
qed

end
